theory Spec2Isabelle
  imports Complex_Main "HOL-Library.Word" "HOL-Library.Multiset"
begin

section \<open>Machine types\<close>

text \<open>
  The simulator is built for a 64-bit target: \<^verbatim>\<open>size_t\<close> is an unsigned 64-bit integer
  whose arithmetic wraps around. Block ids are C \<^verbatim>\<open>int\<close>s that count upwards from 1;
  they are modelled as unbounded integers (an overflow of the id counter would need
  more than two thousand million successful allocations and is undefined in C++).
\<close>

type_synonym size_t = "64 word"

section \<open>The block allocator (allocator.cpp, memory_block.h, allocator.h)\<close>

subsection \<open>Data\<close>

text \<open>
  A \<^verbatim>\<open>MemoryBlock\<close> node. The \<^verbatim>\<open>next\<close> and \<^verbatim>\<open>prev\<close> pointers of the doubly linked
  chain are the position of the node in a list: the chain reached from \<^verbatim>\<open>head\<close>
  is the list of its nodes in link order, and \<^verbatim>\<open>head == nullptr\<close> is the empty list.
  The field \<^verbatim>\<open>size\<close> is written \<open>size_blk\<close>.
\<close>

record MemoryBlock =
  address :: size_t
  size_blk :: size_t
  is_free :: bool
  block_id :: int

datatype AllocationStrategy = FIRST_FIT | BEST_FIT | WORST_FIT

text \<open>
  \<^verbatim>\<open>external_fragmentation\<close> is a \<^verbatim>\<open>double\<close> in the source. The model stores the rational
  number that the \<^verbatim>\<open>double\<close> stands for.
\<close>

record AllocationStats =
  total_memory :: size_t
  used_memory :: size_t
  free_memory :: size_t
  num_allocations :: size_t
  num_deallocations :: size_t
  allocation_failures :: size_t
  external_fragmentation :: rat

definition AllocationStats_new :: AllocationStats where
  "AllocationStats_new =
     \<lparr>total_memory = 0, used_memory = 0, free_memory = 0, num_allocations = 0,
      num_deallocations = 0, allocation_failures = 0, external_fragmentation = 0\<rparr>"

record Allocator =
  head :: "MemoryBlock list"
  total_size :: size_t
  strategy :: AllocationStrategy
  next_block_id :: int
  stats :: AllocationStats

definition Allocator_new :: Allocator where
  "Allocator_new =
     \<lparr>head = [], total_size = 0, strategy = FIRST_FIT, next_block_id = 1,
      stats = AllocationStats_new\<rparr>"

text \<open>
  The three ways \<^verbatim>\<open>allocate\<close> returns \<^verbatim>\<open>-1\<close>, told apart by the branch taken (the
  source prints a different message in each).
\<close>

datatype alloc_failure = NotInitialized | InvalidSize | OutOfMemory

subsection \<open>Double-precision arithmetic\<close>

text \<open>
  The target computes with \<^verbatim>\<open>double\<close> in IEEE 754 binary64 and rounds the result of every
  conversion and of every operation to the nearest number of the format, a tie going to
  the even significand. A finite \<^verbatim>\<open>double\<close> is a rational number with a significand of
  53 bits: for \<open>2 ^ e \<le> \<bar>x\<bar> < 2 ^ (e + 1)\<close> the numbers of the format around \<open>x\<close> are the
  multiples of \<open>2 ^ (e - 52)\<close>, and \<open>round_double x\<close> is the nearest of them.

  The exponent range of the format is not modelled. Every value that \<^verbatim>\<open>updateStats\<close>
  computes is 0 or lies between \<open>2 ^ - 64\<close> and \<open>2 ^ 71\<close> in magnitude, where the format has
  neither overflow nor underflow and no subnormal number, infinity or NaN arises.
\<close>

text \<open>The number of binary digits of a positive integer.\<close>

function bit_length :: "int \<Rightarrow> int" where
  "bit_length n = (if n \<le> 0 then 0 else bit_length (n div 2) + 1)"
  by auto
termination
  by (relation "measure nat") auto

declare bit_length.simps [simp del]

definition pow2 :: "int \<Rightarrow> rat" where
  "pow2 e = (if 0 \<le> e then of_int (2 ^ nat e) else 1 / of_int (2 ^ nat (- e)))"

text \<open>
  The exponent \<open>e\<close> with \<open>2 ^ e \<le> x < 2 ^ (e + 1)\<close> of a positive rational \<open>x = p / q\<close>: it is
  the difference \<open>d\<close> of the digit counts of \<open>p\<close> and \<open>q\<close>, or one less.
\<close>

definition floor_log2 :: "rat \<Rightarrow> int" where
  "floor_log2 x =
     (case quotient_of x of
        (p, q) \<Rightarrow> (let d = bit_length p - bit_length q in if pow2 d \<le> x then d else d - 1))"

text \<open>The nearest integer, a tie going to the even one.\<close>

definition round_half_even :: "rat \<Rightarrow> int" where
  "round_half_even m =
     (let f = \<lfloor>m\<rfloor>; d = m - of_int f
      in if d < 1 / 2 then f else if 1 / 2 < d then f + 1 else if even f then f else f + 1)"

definition round_double :: "rat \<Rightarrow> rat" where
  "round_double x =
     (if x = 0 then 0
      else
        (let u = pow2 (floor_log2 \<bar>x\<bar> - 52)
         in sgn x * of_int (round_half_even (\<bar>x\<bar> / u)) * u))"

text \<open>
  The conversion of a \<^verbatim>\<open>size_t\<close> to \<^verbatim>\<open>double\<close> and the three operations of \<^verbatim>\<open>updateStats\<close>
  on \<^verbatim>\<open>double\<close>s (the divisor is never 0 where the source divides).
\<close>

definition double_of_size_t :: "size_t \<Rightarrow> rat" where
  "double_of_size_t n = round_double (of_int (uint n))"

definition double_div :: "rat \<Rightarrow> rat \<Rightarrow> rat" where
  "double_div a b = round_double (a / b)"

definition double_sub :: "rat \<Rightarrow> rat \<Rightarrow> rat" where
  "double_sub a b = round_double (a - b)"

definition double_mul :: "rat \<Rightarrow> rat \<Rightarrow> rat" where
  "double_mul a b = round_double (a * b)"

subsection \<open>updateStats\<close>

text \<open>
  The loop of \<^verbatim>\<open>updateStats\<close> over the chain. The accumulator holds, in this order,
  \<^verbatim>\<open>stats.used_memory\<close>, \<^verbatim>\<open>stats.free_memory\<close>, \<^verbatim>\<open>largest_free\<close>, \<^verbatim>\<open>total_free\<close> and
  \<^verbatim>\<open>free_block_count\<close>. The fragmentation figure is
  \<^verbatim>\<open>(1.0 - (double)largest_free / total_free) * 100.0\<close>: both operands of the division are
  converted to \<^verbatim>\<open>double\<close>, and the quotient, the difference and the product are each
  rounded. The constants 1 and 100 are numbers of the format.
\<close>

fun updateStats_loop ::
  "MemoryBlock list \<Rightarrow> size_t \<times> size_t \<times> size_t \<times> size_t \<times> int \<Rightarrow>
   size_t \<times> size_t \<times> size_t \<times> size_t \<times> int" where
  "updateStats_loop [] acc = acc"
| "updateStats_loop (c # cs) (used, fr, largest_free, total_free, free_block_count) =
     (if is_free c then
        updateStats_loop cs
          (used, fr + size_blk c,
           (if largest_free < size_blk c then size_blk c else largest_free),
           total_free + size_blk c, free_block_count + 1)
      else updateStats_loop cs (used + size_blk c, fr, largest_free, total_free, free_block_count))"

definition updateStats :: "Allocator \<Rightarrow> Allocator" where
  "updateStats a =
     (case updateStats_loop (head a) (0, 0, 0, 0, 0) of
        (used, fr, largest_free, total_free, free_block_count) \<Rightarrow>
          a\<lparr>stats := (stats a)
              \<lparr>used_memory := used, free_memory := fr,
               external_fragmentation :=
                 (if 0 < total_free \<and> 1 < free_block_count
                  then double_mul
                         (double_sub 1
                            (double_div (double_of_size_t largest_free)
                               (double_of_size_t total_free)))
                         100
                  else 0)\<rparr>\<rparr>)"

subsection \<open>initMemory, setStrategy\<close>

definition initMemory :: "Allocator \<Rightarrow> size_t \<Rightarrow> bool \<times> Allocator" where
  "initMemory a sz =
     (True,
      a\<lparr>head := [\<lparr>address = 0, size_blk = sz, is_free = True, block_id = - 1\<rparr>],
        total_size := sz, next_block_id := 1,
        stats := AllocationStats_new\<lparr>total_memory := sz, free_memory := sz\<rparr>\<rparr>)"

definition isInitialized :: "Allocator \<Rightarrow> bool" where
  "isInitialized a = (head a \<noteq> [])"

definition setStrategy :: "Allocator \<Rightarrow> AllocationStrategy \<Rightarrow> Allocator" where
  "setStrategy a strat = a\<lparr>strategy := strat\<rparr>"

subsection \<open>Placement: firstFit, bestFit, worstFit\<close>

text \<open>
  The searches return a pointer to a node of the chain; the model returns the position
  of that node, \<open>None\<close> for \<^verbatim>\<open>nullptr\<close>. The loops walk the chain from \<^verbatim>\<open>head\<close>; the
  \<open>nat\<close> argument is the position of \<^verbatim>\<open>current\<close>, and \<^verbatim>\<open>best\<close> and \<^verbatim>\<open>worst\<close> are
  kept as the position together with the node found there.
\<close>

fun firstFit_loop :: "MemoryBlock list \<Rightarrow> nat \<Rightarrow> size_t \<Rightarrow> nat option" where
  "firstFit_loop [] i sz = None"
| "firstFit_loop (c # cs) i sz =
     (if is_free c \<and> sz \<le> size_blk c then Some i else firstFit_loop cs (Suc i) sz)"

fun bestFit_loop ::
  "MemoryBlock list \<Rightarrow> nat \<Rightarrow> size_t \<Rightarrow> (nat \<times> MemoryBlock) option \<Rightarrow> (nat \<times> MemoryBlock) option" where
  "bestFit_loop [] i sz best = best"
| "bestFit_loop (c # cs) i sz best =
     bestFit_loop cs (Suc i) sz
       (if is_free c \<and> sz \<le> size_blk c then
          (case best of
             None \<Rightarrow> Some (i, c)
           | Some (j, b) \<Rightarrow> if size_blk c < size_blk b then Some (i, c) else best)
        else best)"

fun worstFit_loop ::
  "MemoryBlock list \<Rightarrow> nat \<Rightarrow> size_t \<Rightarrow> (nat \<times> MemoryBlock) option \<Rightarrow> (nat \<times> MemoryBlock) option" where
  "worstFit_loop [] i sz worst = worst"
| "worstFit_loop (c # cs) i sz worst =
     worstFit_loop cs (Suc i) sz
       (if is_free c \<and> sz \<le> size_blk c then
          (case worst of
             None \<Rightarrow> Some (i, c)
           | Some (j, b) \<Rightarrow> if size_blk b < size_blk c then Some (i, c) else worst)
        else worst)"

definition firstFit :: "Allocator \<Rightarrow> size_t \<Rightarrow> nat option" where
  "firstFit a sz = firstFit_loop (head a) 0 sz"

definition bestFit :: "Allocator \<Rightarrow> size_t \<Rightarrow> nat option" where
  "bestFit a sz = map_option fst (bestFit_loop (head a) 0 sz None)"

definition worstFit :: "Allocator \<Rightarrow> size_t \<Rightarrow> nat option" where
  "worstFit a sz = map_option fst (worstFit_loop (head a) 0 sz None)"

definition findFreeBlock :: "Allocator \<Rightarrow> size_t \<Rightarrow> nat option" where
  "findFreeBlock a sz =
     (case strategy a of
        FIRST_FIT \<Rightarrow> firstFit a sz
      | BEST_FIT \<Rightarrow> bestFit a sz
      | WORST_FIT \<Rightarrow> worstFit a sz)"

subsection \<open>allocate\<close>

text \<open>
  The node found at position \<open>i\<close> is marked used and given the next id; when it is
  larger than the request it is first cut down to the request and a new free node with
  the remainder is linked in right after it.
\<close>

definition allocate :: "Allocator \<Rightarrow> size_t \<Rightarrow> (alloc_failure + int) \<times> Allocator" where
  "allocate a sz =
     (if head a = [] then (Inl NotInitialized, a)
      else if sz = 0 then (Inl InvalidSize, a)
      else
        (case findFreeBlock a sz of
           None \<Rightarrow>
             (Inl OutOfMemory,
              a\<lparr>stats := (stats a)\<lparr>allocation_failures := allocation_failures (stats a) + 1\<rparr>\<rparr>)
         | Some i \<Rightarrow>
             (let allocated_id = next_block_id a;
                  block = head a ! i;
                  nodes =
                    (if sz < size_blk block then
                       [block\<lparr>size_blk := sz, is_free := False, block_id := allocated_id\<rparr>,
                        \<lparr>address = address block + sz, size_blk = size_blk block - sz,
                         is_free = True, block_id = - 1\<rparr>]
                     else [block\<lparr>is_free := False, block_id := allocated_id\<rparr>]);
                  a1 = a\<lparr>head := take i (head a) @ nodes @ drop (Suc i) (head a),
                         next_block_id := allocated_id + 1\<rparr>;
                  a2 = a1\<lparr>stats := (stats a1)\<lparr>num_allocations := num_allocations (stats a1) + 1\<rparr>\<rparr>
              in (Inr allocated_id, updateStats a2))))"

text \<open>The \<^verbatim>\<open>int\<close> that \<^verbatim>\<open>allocate\<close> returns.\<close>

definition allocate_return :: "alloc_failure + int \<Rightarrow> int" where
  "allocate_return r = (case r of Inl _ \<Rightarrow> - 1 | Inr i \<Rightarrow> i)"

subsection \<open>coalesce, free\<close>

text \<open>
  \<^verbatim>\<open>coalesce(block)\<close> works at a node inside the chain. The model holds the chain as the
  nodes before \<^verbatim>\<open>block\<close> in reverse link order (nearest first, as \<^verbatim>\<open>prev\<close> reaches
  them), the node itself, and the nodes after it. The first loop absorbs free
  successors into \<^verbatim>\<open>block\<close>; the second absorbs \<^verbatim>\<open>block\<close> into each free predecessor,
  which then takes its place.
\<close>

fun coalesce_next :: "MemoryBlock \<Rightarrow> MemoryBlock list \<Rightarrow> MemoryBlock \<times> MemoryBlock list" where
  "coalesce_next block [] = (block, [])"
| "coalesce_next block (n # ns) =
     (if is_free n then coalesce_next (block\<lparr>size_blk := size_blk block + size_blk n\<rparr>) ns
      else (block, n # ns))"

fun coalesce_prev :: "MemoryBlock list \<Rightarrow> MemoryBlock \<Rightarrow> MemoryBlock list \<times> MemoryBlock" where
  "coalesce_prev [] block = ([], block)"
| "coalesce_prev (p # ps) block =
     (if is_free p then coalesce_prev ps (p\<lparr>size_blk := size_blk p + size_blk block\<rparr>)
      else (p # ps, block))"

definition coalesce :: "MemoryBlock list \<Rightarrow> MemoryBlock \<Rightarrow> MemoryBlock list \<Rightarrow> MemoryBlock list" where
  "coalesce prevs block nexts =
     (if \<not> is_free block then rev prevs @ block # nexts
      else
        (case coalesce_next block nexts of
           (block1, nexts') \<Rightarrow>
             (case coalesce_prev prevs block1 of
                (prevs', block2) \<Rightarrow> rev prevs' @ block2 # nexts')))"

text \<open>
  The search loop of \<^verbatim>\<open>free\<close>: \<open>prevs\<close> are the nodes already passed (reversed),
  the second list starts at \<^verbatim>\<open>current\<close>. It gives the new chain, or \<open>None\<close> when no
  used node carries the id.
\<close>

fun free_loop :: "MemoryBlock list \<Rightarrow> MemoryBlock list \<Rightarrow> int \<Rightarrow> MemoryBlock list option" where
  "free_loop prevs [] bid = None"
| "free_loop prevs (c # cs) bid =
     (if block_id c = bid \<and> \<not> is_free c
      then Some (coalesce prevs (c\<lparr>is_free := True, block_id := - 1\<rparr>) cs)
      else free_loop (c # prevs) cs bid)"

definition free :: "Allocator \<Rightarrow> int \<Rightarrow> bool \<times> Allocator" where
  "free a bid =
     (if head a = [] then (False, a)
      else
        (case free_loop [] (head a) bid of
           None \<Rightarrow> (False, a)
         | Some chain \<Rightarrow>
             (True,
              updateStats
                (a\<lparr>head := chain,
                   stats := (stats a)\<lparr>num_deallocations := num_deallocations (stats a) + 1\<rparr>\<rparr>))))"

subsection \<open>Runs of the allocator\<close>

text \<open>
  The operations a caller can perform on an allocator, and the state reached from a
  freshly constructed allocator by a sequence of them.
\<close>

datatype command = InitMemory size_t | SetStrategy AllocationStrategy | Allocate size_t | Free int

fun step :: "Allocator \<Rightarrow> command \<Rightarrow> Allocator" where
  "step a (InitMemory sz) = snd (initMemory a sz)"
| "step a (SetStrategy strat) = setStrategy a strat"
| "step a (Allocate sz) = snd (allocate a sz)"
| "step a (Free bid) = snd (free a bid)"

definition run :: "command list \<Rightarrow> Allocator" where
  "run cmds = foldl step Allocator_new cmds"

subsection \<open>Properties of a chain\<close>

text \<open>No two neighbouring nodes of the chain are both free.\<close>

fun no_adjacent_free :: "MemoryBlock list \<Rightarrow> bool" where
  "no_adjacent_free (a # b # bs) = (\<not> (is_free a \<and> is_free b) \<and> no_adjacent_free (b # bs))"
| "no_adjacent_free [a] = True"
| "no_adjacent_free [] = True"

text \<open>
  What every search result satisfies: \<open>r\<close> is a position at or after \<open>i\<close> (the position
  of the first node of \<open>cs\<close>) together with the node there, which is free and large
  enough.
\<close>

definition fits_at :: "MemoryBlock list \<Rightarrow> nat \<Rightarrow> size_t \<Rightarrow> nat \<times> MemoryBlock \<Rightarrow> bool" where
  "fits_at cs i sz r =
     (i \<le> fst r \<and> fst r - i < length cs \<and> cs ! (fst r - i) = snd r \<and>
      is_free (snd r) \<and> sz \<le> size_blk (snd r))"

text \<open>
  The sizes of the free and of the used nodes of a chain, in chain order, as natural
  numbers, and the fragmentation figure of a list of free sizes: the largest size as a
  share of their sum, taken from one and given in percent, computed in \<^verbatim>\<open>double\<close> as
  \<^verbatim>\<open>updateStats\<close> does; \<open>fragmentation_percent\<close> is that computation on the largest size and
  the sum.
\<close>

definition free_sizes :: "MemoryBlock list \<Rightarrow> nat list" where
  "free_sizes ch = map (\<lambda>b. unat (size_blk b)) (filter is_free ch)"

definition used_sizes :: "MemoryBlock list \<Rightarrow> nat list" where
  "used_sizes ch = map (\<lambda>b. unat (size_blk b)) (filter (\<lambda>b. \<not> is_free b) ch)"

definition fragmentation_percent :: "nat \<Rightarrow> nat \<Rightarrow> rat" where
  "fragmentation_percent largest tot =
     double_mul
       (double_sub 1
          (double_div (round_double (of_int (int largest))) (round_double (of_int (int tot)))))
       100"

definition fragmentation_of :: "nat list \<Rightarrow> rat" where
  "fragmentation_of fs =
     (if 1 < length fs \<and> 0 < sum_list fs
      then fragmentation_percent (foldr max fs 0) (sum_list fs)
      else 0)"

text \<open>
  The statistics agree with the chain: the chain's sizes add up to \<^verbatim>\<open>total_memory\<close>
  without wrapping, and the derived fields are those of the chain.
\<close>

definition stats_agree :: "Allocator \<Rightarrow> bool" where
  "stats_agree a =
     (sum_list (used_sizes (head a)) + sum_list (free_sizes (head a)) = unat (total_memory (stats a)) \<and>
      unat (used_memory (stats a)) = sum_list (used_sizes (head a)) \<and>
      unat (free_memory (stats a)) = sum_list (free_sizes (head a)) \<and>
      external_fragmentation (stats a) = fragmentation_of (free_sizes (head a)))"

text \<open>The sizes of all nodes of a chain, added up as natural numbers.\<close>

definition chain_total :: "MemoryBlock list \<Rightarrow> nat" where
  "chain_total ch = sum_list (used_sizes ch) + sum_list (free_sizes ch)"

text \<open>Some free node of the chain has room for a request of \<open>sz\<close> bytes.\<close>

definition can_fit :: "MemoryBlock list \<Rightarrow> size_t \<Rightarrow> bool" where
  "can_fit ch sz = list_ex (\<lambda>b. is_free b \<and> sz \<le> size_blk b) ch"

text \<open>A sequence of \<^verbatim>\<open>allocate\<close> calls: the results in call order, and the last state.\<close>

fun allocate_all :: "Allocator \<Rightarrow> size_t list \<Rightarrow> (alloc_failure + int) list \<times> Allocator" where
  "allocate_all a [] = ([], a)"
| "allocate_all a (sz # szs) =
     (case allocate a sz of
        (r, a') \<Rightarrow> (case allocate_all a' szs of (rs, a'') \<Rightarrow> (r # rs, a'')))"

section \<open>The cache hierarchy (cache.cpp, cache.h)\<close>

subsection \<open>Data\<close>

datatype ReplacementPolicy = FIFO | LRU

record CacheLine =
  valid :: bool
  dirty :: bool
  tag :: size_t
  last_access :: size_t

definition CacheLine_new :: CacheLine where
  "CacheLine_new = \<lparr>valid = False, dirty = False, tag = 0, last_access = 0\<rparr>"

record CacheStats =
  hits :: size_t
  misses :: size_t
  accesses :: size_t
  write_backs :: size_t
  total_access_time :: size_t

definition CacheStats_new :: CacheStats where
  "CacheStats_new = \<lparr>hits = 0, misses = 0, accesses = 0, write_backs = 0, total_access_time = 0\<rparr>"

text \<open>
  A \<^verbatim>\<open>CacheLevel\<close>. The fields \<^verbatim>\<open>size\<close> and \<^verbatim>\<open>stats\<close> are written \<open>size_lvl\<close> and
  \<open>level_stats\<close>. \<^verbatim>\<open>sets\<close> is the vector of sets, each a vector of lines;
  \<^verbatim>\<open>fifo_queues\<close> holds one list of line positions per set, front first. Positions in
  vectors are natural numbers.
\<close>

record CacheLevel =
  name :: string
  size_lvl :: size_t
  block_size :: size_t
  associativity :: size_t
  num_sets :: size_t
  num_lines :: size_t
  sets :: "CacheLine list list"
  fifo_queues :: "nat list list"
  policy :: ReplacementPolicy
  level_stats :: CacheStats
  access_counter :: size_t
  access_latency :: size_t

text \<open>
  The source has no error path of its own in the cache. What it can run into is
  behaviour that C++ leaves undefined: an integer division or remainder by 0 (a trap
  on the target), the conversion of \<^verbatim>\<open>log2(0)\<close>, which is minus infinity, to
  \<^verbatim>\<open>size_t\<close>, a shift of a 64-bit value by 64 or more bits, and \<^verbatim>\<open>front()\<close> of an empty
  list; and an exception of the standard library (\<^verbatim>\<open>std::length_error\<close>,
  \<^verbatim>\<open>std::bad_alloc\<close>) when the vectors of a level cannot be allocated. The model stops
  there with the cause.
\<close>

datatype fault =
  DivisionByZero | Log2OfZero | ShiftOutOfRange | FrontOfEmptyQueue | AllocationFailed

subsection \<open>CacheLevel: construction and address decomposition\<close>

text \<open>
  The constructor divides twice and then sizes its vectors: \<^verbatim>\<open>sets.resize(num_sets)\<close>,
  \<^verbatim>\<open>fifo_queues.resize(num_sets)\<close> and \<^verbatim>\<open>sets[i].resize(associativity)\<close> for every set.
  Whether the host can allocate them is not in the source; it is the parameter \<open>room\<close>:
  \<open>room n k\<close> says that the host has the memory for a level of \<open>n\<close> sets of \<open>k\<close> lines, with
  a queue of up to \<open>k\<close> positions for each set. If it has not, a \<^verbatim>\<open>resize\<close> throws and no
  level is built. Nothing is allocated for a level of no sets.
\<close>

definition CacheLevel_new ::
  "(size_t \<Rightarrow> size_t \<Rightarrow> bool) \<Rightarrow> string \<Rightarrow> size_t \<Rightarrow> size_t \<Rightarrow> size_t \<Rightarrow>
   ReplacementPolicy \<Rightarrow> size_t \<Rightarrow> fault + CacheLevel" where
  "CacheLevel_new room levelName cacheSize blockSize assoc pol latency =
     (if blockSize = 0 then Inl DivisionByZero
      else if assoc = 0 then Inl DivisionByZero
      else
        (let nl = cacheSize div blockSize; ns = nl div assoc in
         if ns \<noteq> 0 \<and> \<not> room ns assoc then Inl AllocationFailed
         else
           Inr \<lparr>name = levelName, size_lvl = cacheSize, block_size = blockSize,
                associativity = assoc, num_sets = ns, num_lines = nl,
                sets = replicate (unat ns) (replicate (unat assoc) CacheLine_new),
                fifo_queues = replicate (unat ns) [],
                policy = pol, level_stats = CacheStats_new, access_counter = 0,
                access_latency = latency\<rparr>))"

text \<open>
  \<^verbatim>\<open>getSetIndex\<close> and \<^verbatim>\<open>getTag\<close> take their shift counts from
  \<^verbatim>\<open>(size_t)std::log2(x)\<close>: \<open>x\<close> is converted to \<^verbatim>\<open>double\<close>, the logarithm is computed in
  floating point by the C library and the result is cut to an integer. For \<open>x > 0\<close> this
  is a number from 0 to 64, but which number depends on the rounding of the conversion
  and of the library's logarithm: at \<open>x = 2 ^ 49 - 1\<close> the result is 49 where the exact
  logarithm is below 49. The source does not determine this function, so it is the
  parameter \<open>lg\<close> of the model: \<open>lg x\<close> is the value of \<^verbatim>\<open>(size_t)std::log2(x)\<close> on the target
  for \<open>x > 0\<close>. Every theorem about the cache holds for every \<open>lg\<close>.

  In \<^verbatim>\<open>getSetIndex\<close> the shift comes before the remainder; in \<^verbatim>\<open>getTag\<close> both logarithms
  are taken and their sum, a \<^verbatim>\<open>size_t\<close>, is the shift count.
\<close>

definition getSetIndex :: "(size_t \<Rightarrow> size_t) \<Rightarrow> CacheLevel \<Rightarrow> size_t \<Rightarrow> fault + size_t" where
  "getSetIndex lg lvl addr =
     (if block_size lvl = 0 then Inl Log2OfZero
      else
        (let block_bits = lg (block_size lvl) in
         if \<not> block_bits < 64 then Inl ShiftOutOfRange
         else if num_sets lvl = 0 then Inl DivisionByZero
         else Inr (drop_bit (unat block_bits) addr mod num_sets lvl)))"

definition getTag :: "(size_t \<Rightarrow> size_t) \<Rightarrow> CacheLevel \<Rightarrow> size_t \<Rightarrow> fault + size_t" where
  "getTag lg lvl addr =
     (if block_size lvl = 0 \<or> num_sets lvl = 0 then Inl Log2OfZero
      else
        (let block_bits = lg (block_size lvl); set_bits = lg (num_sets lvl) in
         if \<not> block_bits + set_bits < 64 then Inl ShiftOutOfRange
         else Inr (drop_bit (unat (block_bits + set_bits)) addr)))"

subsection \<open>CacheLevel: findVictim and access\<close>

text \<open>
  \<^verbatim>\<open>findVictim\<close> gives the position of the line to replace, and the level with the
  front of the set's queue popped when the FIFO branch was taken. The LRU loop keeps
  \<^verbatim>\<open>victim\<close> and \<^verbatim>\<open>min_access\<close>.
\<close>

definition findVictim :: "CacheLevel \<Rightarrow> nat \<Rightarrow> fault + (nat \<times> CacheLevel)" where
  "findVictim lvl set_index =
     (let st = sets lvl ! set_index in
      case find (\<lambda>i. \<not> valid (st ! i)) [0..<unat (associativity lvl)] of
        Some i \<Rightarrow> Inr (i, lvl)
      | None \<Rightarrow>
          (if policy lvl = FIFO then
             (case fifo_queues lvl ! set_index of
                [] \<Rightarrow> Inl FrontOfEmptyQueue
              | victim # queue \<Rightarrow>
                  Inr (victim, lvl\<lparr>fifo_queues := (fifo_queues lvl)[set_index := queue]\<rparr>))
           else
             Inr (fst (foldl
                        (\<lambda>(victim, min_access) i.
                           if last_access (st ! i) < min_access then (i, last_access (st ! i))
                           else (victim, min_access))
                        (0, last_access (st ! 0)) [1..<unat (associativity lvl)]),
                  lvl)))"

text \<open>
  \<^verbatim>\<open>CacheLevel::access\<close>: the result is \<^verbatim>\<open>true\<close> on a hit, with the level as the call
  leaves it.
\<close>

definition CacheLevel_access ::
  "(size_t \<Rightarrow> size_t) \<Rightarrow> CacheLevel \<Rightarrow> size_t \<Rightarrow> bool \<Rightarrow> fault + (bool \<times> CacheLevel)" where
  "CacheLevel_access lg lvl addr isWrite =
     (let lvl1 = lvl\<lparr>level_stats := (level_stats lvl)
                       \<lparr>accesses := accesses (level_stats lvl) + 1,
                        total_access_time := total_access_time (level_stats lvl) + access_latency lvl\<rparr>,
                     access_counter := access_counter lvl + 1\<rparr>
      in
      case getSetIndex lg lvl1 addr of
        Inl f \<Rightarrow> Inl f
      | Inr set_index_w \<Rightarrow>
          (case getTag lg lvl1 addr of
             Inl f \<Rightarrow> Inl f
           | Inr tg \<Rightarrow>
               (let set_index = unat set_index_w; st = sets lvl1 ! set_index in
                case find (\<lambda>i. valid (st ! i) \<and> tag (st ! i) = tg)
                       [0..<unat (associativity lvl1)] of
                  Some i \<Rightarrow>
                    Inr (True,
                         lvl1\<lparr>level_stats := (level_stats lvl1)\<lparr>hits := hits (level_stats lvl1) + 1\<rparr>,
                              sets := (sets lvl1)
                                [set_index := st
                                   [i := (st ! i)\<lparr>last_access := access_counter lvl1,
                                                 dirty := (isWrite \<or> dirty (st ! i))\<rparr>]]\<rparr>)
                | None \<Rightarrow>
                    (case findVictim
                            (lvl1\<lparr>level_stats := (level_stats lvl1)
                                    \<lparr>misses := misses (level_stats lvl1) + 1\<rparr>\<rparr>)
                            set_index of
                       Inl f \<Rightarrow> Inl f
                     | Inr (victim, lvl2) \<Rightarrow>
                         (let st2 = sets lvl2 ! set_index;
                              lvl3 =
                                (if valid (st2 ! victim) \<and> dirty (st2 ! victim)
                                 then lvl2\<lparr>level_stats := (level_stats lvl2)
                                        \<lparr>write_backs := write_backs (level_stats lvl2) + 1\<rparr>\<rparr>
                                 else lvl2);
                              lvl4 =
                                lvl3\<lparr>sets := (sets lvl3)
                                       [set_index := st2
                                          [victim := \<lparr>valid = True, dirty = isWrite, tag = tg,
                                                      last_access = access_counter lvl3\<rparr>]]\<rparr>;
                              lvl5 =
                                (if policy lvl4 = FIFO
                                 then lvl4\<lparr>fifo_queues := (fifo_queues lvl4)
                                        [set_index := fifo_queues lvl4 ! set_index @ [victim]]\<rparr>
                                 else lvl4)
                          in Inr (False, lvl5))))))"

text \<open>A sequence of accesses to one level: the hit or miss of each, and the last state.\<close>

fun access_all ::
  "(size_t \<Rightarrow> size_t) \<Rightarrow> CacheLevel \<Rightarrow> (size_t \<times> bool) list \<Rightarrow>
   fault + (bool list \<times> CacheLevel)" where
  "access_all lg lvl [] = Inr ([], lvl)"
| "access_all lg lvl ((addr, isWrite) # rest) =
     (case CacheLevel_access lg lvl addr isWrite of
        Inl f \<Rightarrow> Inl f
      | Inr (hit, lvl') \<Rightarrow>
          (case access_all lg lvl' rest of
             Inl f \<Rightarrow> Inl f
           | Inr (hs, lvl'') \<Rightarrow> Inr (hit # hs, lvl'')))"

subsection \<open>CacheSimulator\<close>

text \<open>\<^verbatim>\<open>total_access_time\<close> of the simulator is written \<open>sim_total_access_time\<close>.\<close>

record CacheSimulator =
  levels :: "CacheLevel list"
  initialized :: bool
  sim_total_access_time :: size_t
  memory_latency :: size_t

definition CacheSimulator_new :: CacheSimulator where
  "CacheSimulator_new =
     \<lparr>levels = [], initialized = False, sim_total_access_time = 0, memory_latency = 100\<rparr>"

definition addLevel ::
  "(size_t \<Rightarrow> size_t \<Rightarrow> bool) \<Rightarrow> CacheSimulator \<Rightarrow> string \<Rightarrow> size_t \<Rightarrow> size_t \<Rightarrow> size_t \<Rightarrow> ReplacementPolicy \<Rightarrow> size_t \<Rightarrow>
   fault + CacheSimulator" where
  "addLevel room sim nm sz blockSize assoc pol latency =
     (case CacheLevel_new room nm sz blockSize assoc pol latency of
        Inl f \<Rightarrow> Inl f
      | Inr lvl \<Rightarrow> Inr (sim\<lparr>levels := levels sim @ [lvl], initialized := True\<rparr>))"

text \<open>
  The loop of \<^verbatim>\<open>CacheSimulator::access\<close> over the levels still to probe, with the
  running \<^verbatim>\<open>access_time\<close>. It gives whether some level hit, the \<^verbatim>\<open>access_time\<close>
  reached, and the levels as the probes leave them.
\<close>

fun access_loop ::
  "(size_t \<Rightarrow> size_t) \<Rightarrow> CacheLevel list \<Rightarrow> size_t \<Rightarrow> bool \<Rightarrow> size_t \<Rightarrow>
   fault + (bool \<times> size_t \<times> CacheLevel list)" where
  "access_loop lg [] addr isWrite access_time = Inr (False, access_time, [])"
| "access_loop lg (level # rest) addr isWrite access_time =
     (case CacheLevel_access lg level addr isWrite of
        Inl f \<Rightarrow> Inl f
      | Inr (hit, level') \<Rightarrow>
          if hit then Inr (True, access_time + access_latency level, level' # rest)
          else
            (case access_loop lg rest addr isWrite (access_time + access_latency level) of
               Inl f \<Rightarrow> Inl f
             | Inr (h, t, rest') \<Rightarrow> Inr (h, t, level' # rest')))"

text \<open>
  \<^verbatim>\<open>CacheSimulator::access\<close> returns nothing; the model gives the \<^verbatim>\<open>access_time\<close> that
  the call prints as the cycles of this access, and the simulator afterwards.
\<close>

definition CacheSimulator_access ::
  "(size_t \<Rightarrow> size_t) \<Rightarrow> CacheSimulator \<Rightarrow> size_t \<Rightarrow> bool \<Rightarrow> fault + (size_t \<times> CacheSimulator)" where
  "CacheSimulator_access lg sim addr isWrite =
     (case access_loop lg (levels sim) addr isWrite 0 of
        Inl f \<Rightarrow> Inl f
      | Inr (hit, access_time, lvls) \<Rightarrow>
          (let t = (if hit then access_time else access_time + memory_latency sim)
           in Inr (t, sim\<lparr>levels := lvls,
                         sim_total_access_time := sim_total_access_time sim + t\<rparr>)))"

subsection \<open>Properties of cache levels\<close>

text \<open>
  The geometry divides evenly: \<^verbatim>\<open>size / block_size / associativity\<close> is an exact
  positive integer.
\<close>

definition geometry_exact :: "size_t \<Rightarrow> size_t \<Rightarrow> size_t \<Rightarrow> bool" where
  "geometry_exact sz blockSize assoc =
     (blockSize \<noteq> 0 \<and> assoc \<noteq> 0 \<and> sz mod blockSize = 0 \<and>
      (sz div blockSize) mod assoc = 0 \<and> sz div blockSize div assoc \<noteq> 0)"

text \<open>
  The position, in the set that \<open>addr\<close> maps to, of the first valid line with the tag of
  \<open>addr\<close>: the line the hit scan of \<^verbatim>\<open>CacheLevel::access\<close> stops at. The level holds the
  address when there is such a line.
\<close>

definition hit_line :: "(size_t \<Rightarrow> size_t) \<Rightarrow> CacheLevel \<Rightarrow> size_t \<Rightarrow> nat option" where
  "hit_line lg lvl addr =
     (case getSetIndex lg lvl addr of
        Inl f \<Rightarrow> None
      | Inr s \<Rightarrow>
          (case getTag lg lvl addr of
             Inl f \<Rightarrow> None
           | Inr tg \<Rightarrow>
               find (\<lambda>i. valid (sets lvl ! unat s ! i) \<and> tag (sets lvl ! unat s ! i) = tg)
                 [0..<unat (associativity lvl)]))"

definition holds :: "(size_t \<Rightarrow> size_t) \<Rightarrow> CacheLevel \<Rightarrow> size_t \<Rightarrow> bool" where
  "holds lg lvl addr = (hit_line lg lvl addr \<noteq> None)"

text \<open>The levels an access probes: those up to and including the first that holds the address.\<close>

fun probed :: "(size_t \<Rightarrow> size_t) \<Rightarrow> CacheLevel list \<Rightarrow> size_t \<Rightarrow> CacheLevel list" where
  "probed lg [] addr = []"
| "probed lg (l # ls) addr = (if holds lg l addr then [l] else l # probed lg ls addr)"

text \<open>The tags of the valid lines of a set.\<close>

definition resident_tags :: "CacheLevel \<Rightarrow> nat \<Rightarrow> size_t set" where
  "resident_tags lvl s = set (map tag (filter valid (sets lvl ! s)))"

text \<open>
  The shape of a level that its constructor sets up and every access keeps: the vectors
  have the lengths the geometry gives, no geometry field is 0, the two shift counts that
  \<^verbatim>\<open>getSetIndex\<close> and \<^verbatim>\<open>getTag\<close> take from the logarithm \<open>lg\<close> of the target are below 64, and
  under FIFO the queue of a set lists the positions of its valid lines, each once. On
  such a level every vector is read and written within its bounds, every shift is
  defined and no queue is empty when its front is taken; the theorems about accesses
  are stated for such levels.
\<close>

definition wf_set :: "CacheLevel \<Rightarrow> nat \<Rightarrow> bool" where
  "wf_set lvl s =
     (length (sets lvl ! s) = unat (associativity lvl) \<and>
      (if policy lvl = FIFO
       then distinct (fifo_queues lvl ! s) \<and>
            set (fifo_queues lvl ! s) =
              set (filter (\<lambda>i. valid (sets lvl ! s ! i)) [0..<unat (associativity lvl)])
       else True))"

definition wf_level :: "(size_t \<Rightarrow> size_t) \<Rightarrow> CacheLevel \<Rightarrow> bool" where
  "wf_level lg lvl =
     (block_size lvl \<noteq> 0 \<and> num_sets lvl \<noteq> 0 \<and> associativity lvl \<noteq> 0 \<and>
      lg (block_size lvl) < 64 \<and> lg (block_size lvl) + lg (num_sets lvl) < 64 \<and>
      length (sets lvl) = unat (num_sets lvl) \<and>
      length (fifo_queues lvl) = unat (num_sets lvl) \<and>
      list_all (wf_set lvl) [0..<unat (num_sets lvl)])"

text \<open>Two states of a level with the same geometry, policy and vector lengths.\<close>

definition same_shape :: "CacheLevel \<Rightarrow> CacheLevel \<Rightarrow> bool" where
  "same_shape l l' =
     (block_size l' = block_size l \<and> num_sets l' = num_sets l \<and>
      associativity l' = associativity l \<and> policy l' = policy l \<and>
      length (sets l') = length (sets l) \<and> length (fifo_queues l') = length (fifo_queues l))"

subsection \<open>Example configurations\<close>

text \<open>
  The examples need a host and a logarithm. The host has room for every level of up to
  1024 sets of up to 1024 lines. The logarithm is the exact one, rounded down: the
  number of times its argument can be halved before it drops below 2. The examples
  only take it at powers of two (the block size 16 and the set counts 1 and 4), where
  the logarithm is an integer that \<^verbatim>\<open>double\<close> represents and that the target's \<^verbatim>\<open>log2\<close>
  returns. No theorem that is stated for every \<open>lg\<close> depends on this choice.
\<close>

definition small_host :: "size_t \<Rightarrow> size_t \<Rightarrow> bool" where
  "small_host n k = (n \<le> 1024 \<and> k \<le> 1024)"

fun halvings :: "nat \<Rightarrow> nat" where
  "halvings n = (if n < 2 then 0 else Suc (halvings (n div 2)))"

declare halvings.simps [simp del]

definition exact_log2 :: "size_t \<Rightarrow> size_t" where
  "exact_log2 x = of_nat (halvings (unat x))"

text \<open>
  A hierarchy of a one-line L1 (latency 1) over a direct-mapped L2 of four lines
  (latency 10), with the memory latency of 100 that the constructor sets; the same
  hierarchy after reading the addresses 0 and 16, when L2 still holds address 0 and L1
  does not; and a one-line level whose line was installed by a write.
\<close>

definition two_level :: CacheSimulator where
  "two_level =
     projr (addLevel small_host
              (projr (addLevel small_host CacheSimulator_new ''L1'' 16 16 1 LRU 1))
              ''L2'' 64 16 1 FIFO 10)"

definition two_level_warm :: CacheSimulator where
  "two_level_warm =
     snd (projr (CacheSimulator_access exact_log2
                   (snd (projr (CacheSimulator_access exact_log2 two_level 0 False))) 16 False))"

definition written_level :: CacheLevel where
  "written_level =
     snd (projr (access_all exact_log2
                   (projr (CacheLevel_new small_host ''L1'' 16 16 1 LRU 1)) [(0, True)]))"

section \<open>Verification of the allocator\<close>

subsection \<open>Chains without adjacent free nodes\<close>

lemma no_adjacent_free_Cons:
  "no_adjacent_free (x # xs) = (no_adjacent_free xs \<and> (xs = [] \<or> \<not> (is_free x \<and> is_free (hd xs))))"
  by (cases xs) auto

lemma no_adjacent_free_append:
  "no_adjacent_free (xs @ ys) =
     (no_adjacent_free xs \<and> no_adjacent_free ys \<and>
      (xs = [] \<or> ys = [] \<or> \<not> (is_free (last xs) \<and> is_free (hd ys))))"
proof (induction xs)
  case Nil
  show ?case by simp
next
  case (Cons x xs)
  show ?case
  proof (cases xs)
    case Nil
    then show ?thesis by (cases ys) auto
  next
    case (Cons x' xs')
    with Cons.IH show ?thesis by auto
  qed
qed

lemma firstFit_loop_Some:
  "firstFit_loop cs i sz = Some k \<Longrightarrow>
     \<exists>j<length cs. k = i + j \<and> is_free (cs ! j) \<and> sz \<le> size_blk (cs ! j)"
proof (induction cs arbitrary: i)
  case Nil
  then show ?case by simp
next
  case (Cons c cs)
  show ?case
  proof (cases "is_free c \<and> sz \<le> size_blk c")
    case True
    with Cons.prems show ?thesis by auto
  next
    case False
    with Cons.prems have "firstFit_loop cs (Suc i) sz = Some k" by auto
    from Cons.IH [OF this] obtain j where "j < length cs" "k = Suc i + j"
      "is_free (cs ! j)" "sz \<le> size_blk (cs ! j)" by blast
    then have "Suc j < length (c # cs) \<and> k = i + Suc j \<and> is_free ((c # cs) ! Suc j)
      \<and> sz \<le> size_blk ((c # cs) ! Suc j)" by simp
    then show ?thesis by blast
  qed
qed

lemma fits_at_Cons: "fits_at cs (Suc i) sz r \<Longrightarrow> fits_at (c # cs) i sz r"
  by (auto simp: fits_at_def Suc_diff_le)

lemma fits_at_here: "is_free c \<Longrightarrow> sz \<le> size_blk c \<Longrightarrow> fits_at (c # cs) i sz (i, c)"
  by (simp add: fits_at_def)

lemma bestFit_loop_Some:
  "bestFit_loop cs i sz best = Some r \<Longrightarrow> best = Some r \<or> fits_at cs i sz r"
proof (induction cs arbitrary: i best)
  case Nil
  then show ?case by simp
next
  case (Cons c cs)
  from Cons.prems Cons.IH show ?case
    by (fastforce simp: fits_at_Cons fits_at_here split: if_splits option.splits prod.splits
           dest: fits_at_Cons)
qed

lemma worstFit_loop_Some:
  "worstFit_loop cs i sz worst = Some r \<Longrightarrow> worst = Some r \<or> fits_at cs i sz r"
proof (induction cs arbitrary: i worst)
  case Nil
  then show ?case by simp
next
  case (Cons c cs)
  from Cons.prems Cons.IH show ?case
    by (fastforce simp: fits_at_Cons fits_at_here split: if_splits option.splits prod.splits
           dest: fits_at_Cons)
qed

lemma findFreeBlock_Some:
  assumes "findFreeBlock a sz = Some i"
  shows "i < length (head a) \<and> is_free (head a ! i) \<and> sz \<le> size_blk (head a ! i)"
proof (cases "strategy a")
  case FIRST_FIT
  with assms have "firstFit_loop (head a) 0 sz = Some i"
    by (simp add: findFreeBlock_def firstFit_def)
  from firstFit_loop_Some [OF this] show ?thesis by auto
next
  case BEST_FIT
  with assms obtain b where "bestFit_loop (head a) 0 sz None = Some (i, b)"
    by (auto simp: findFreeBlock_def bestFit_def)
  from bestFit_loop_Some [OF this] show ?thesis by (simp add: fits_at_def)
next
  case WORST_FIT
  with assms obtain b where "worstFit_loop (head a) 0 sz None = Some (i, b)"
    by (auto simp: findFreeBlock_def worstFit_def)
  from worstFit_loop_Some [OF this] show ?thesis by (simp add: fits_at_def)
qed

lemma head_updateStats [simp]: "head (updateStats a) = head a"
  by (simp add: updateStats_def split: prod.splits)

lemma no_adjacent_free_take: "no_adjacent_free xs \<Longrightarrow> no_adjacent_free (take i xs)"
  by (metis append_take_drop_id no_adjacent_free_append)

lemma no_adjacent_free_drop: "no_adjacent_free xs \<Longrightarrow> no_adjacent_free (drop i xs)"
  by (metis append_take_drop_id no_adjacent_free_append)

lemma no_adjacent_free_allocate_nodes:
  assumes inv: "no_adjacent_free ch" and i: "i < length ch" and fr: "is_free (ch ! i)"
    and used: "\<not> is_free u" and nodes: "nodes = [u] \<or> (\<exists>r. nodes = [u, r])"
  shows "no_adjacent_free (take i ch @ nodes @ drop (Suc i) ch)"
proof -
  have ch: "ch = take i ch @ [ch ! i] @ drop (Suc i) ch"
    using i by (simp add: id_take_nth_drop)
  from inv have pre: "no_adjacent_free (take i ch)" and post: "no_adjacent_free (drop (Suc i) ch)"
    by (rule no_adjacent_free_take, rule no_adjacent_free_drop)
  have "no_adjacent_free ([ch ! i] @ drop (Suc i) ch)"
    using inv no_adjacent_free_drop [of ch i] i by (simp add: Cons_nth_drop_Suc)
  with fr have nxt: "drop (Suc i) ch = [] \<or> \<not> is_free (hd (drop (Suc i) ch))"
    by (simp add: no_adjacent_free_Cons)
  from nodes show ?thesis
  proof
    assume "nodes = [u]"
    with pre post used show ?thesis
      by (simp add: no_adjacent_free_append no_adjacent_free_Cons)
  next
    assume "\<exists>r. nodes = [u, r]"
    then obtain r where "nodes = [u, r]" ..
    with pre post used nxt show ?thesis
      by (auto simp: no_adjacent_free_append no_adjacent_free_Cons)
  qed
qed

lemma no_adjacent_free_allocate:
  assumes "no_adjacent_free (head a)"
  shows "no_adjacent_free (head (snd (allocate a sz)))"
proof (cases "findFreeBlock a sz")
  case None
  with assms show ?thesis by (simp add: allocate_def)
next
  case (Some i)
  from findFreeBlock_Some [OF Some] have i: "i < length (head a)" "is_free (head a ! i)" by simp_all
  note split = no_adjacent_free_allocate_nodes [OF assms i]
  have one: "no_adjacent_free (take i (head a) @ [(head a ! i)\<lparr>is_free := False, block_id := n\<rparr>]
      @ drop (Suc i) (head a))" for n
    by (rule split) simp_all
  have two: "no_adjacent_free (take i (head a) @
      [(head a ! i)\<lparr>size_blk := sz, is_free := False, block_id := n\<rparr>, r] @ drop (Suc i) (head a))" for n r
    by (rule split) simp_all
  show ?thesis
    using assms Some one two by (simp add: allocate_def Let_def)
qed

lemma coalesce_next_props:
  "coalesce_next b ns = (b', ns') \<Longrightarrow> is_free b \<Longrightarrow> no_adjacent_free ns \<Longrightarrow>
     is_free b' \<and> no_adjacent_free ns' \<and> (ns' = [] \<or> \<not> is_free (hd ns'))"
proof (induction b ns rule: coalesce_next.induct)
  case (1 block)
  then show ?case by simp
next
  case (2 block n ns)
  then show ?case
    by (cases "is_free n") (auto simp: no_adjacent_free_Cons)
qed

lemma coalesce_prev_props:
  "coalesce_prev ps b = (ps', b') \<Longrightarrow> is_free b \<Longrightarrow> no_adjacent_free (rev ps) \<Longrightarrow>
     is_free b' \<and> no_adjacent_free (rev ps') \<and> (ps' = [] \<or> \<not> is_free (hd ps'))"
proof (induction ps b rule: coalesce_prev.induct)
  case (1 block)
  then show ?case by simp
next
  case (2 p ps block)
  then show ?case
    by (cases "is_free p") (auto simp: no_adjacent_free_append)
qed

lemma no_adjacent_free_coalesce:
  assumes "is_free b" "no_adjacent_free (rev ps)" "no_adjacent_free ns"
  shows "no_adjacent_free (coalesce ps b ns)"
proof -
  obtain b1 ns' where n: "coalesce_next b ns = (b1, ns')" by (cases "coalesce_next b ns")
  obtain ps' b2 where p: "coalesce_prev ps b1 = (ps', b2)" by (cases "coalesce_prev ps b1")
  from coalesce_next_props [OF n assms(1,3)]
  have b1: "is_free b1" and ns': "no_adjacent_free ns'" "ns' = [] \<or> \<not> is_free (hd ns')" by simp_all
  from coalesce_prev_props [OF p b1 assms(2)]
  have ps': "no_adjacent_free (rev ps')" "ps' = [] \<or> \<not> is_free (hd ps')" by simp_all
  have "coalesce ps b ns = rev ps' @ b2 # ns'"
    using assms(1) n p by (simp add: coalesce_def)
  moreover have "no_adjacent_free (rev ps' @ b2 # ns')"
    using ns' ps' by (auto simp: no_adjacent_free_append no_adjacent_free_Cons last_rev)
  ultimately show ?thesis by simp
qed

lemma no_adjacent_free_free_loop:
  "free_loop ps cs bid = Some chain \<Longrightarrow> no_adjacent_free (rev ps @ cs) \<Longrightarrow> no_adjacent_free chain"
proof (induction cs arbitrary: ps)
  case Nil
  then show ?case by simp
next
  case (Cons c cs)
  show ?case
  proof (cases "block_id c = bid \<and> \<not> is_free c")
    case True
    with Cons.prems(1) have chain: "chain = coalesce ps (c\<lparr>is_free := True, block_id := - 1\<rparr>) cs"
      by simp
    from Cons.prems(2) have "no_adjacent_free (rev ps)" "no_adjacent_free cs"
      by (simp_all add: no_adjacent_free_append no_adjacent_free_Cons)
    then show ?thesis unfolding chain by (intro no_adjacent_free_coalesce) simp_all
  next
    case False
    with Cons.prems(1) have "free_loop (c # ps) cs bid = Some chain" by auto
    moreover from Cons.prems(2) have "no_adjacent_free (rev (c # ps) @ cs)" by simp
    ultimately show ?thesis by (rule Cons.IH)
  qed
qed

lemma no_adjacent_free_free:
  assumes "no_adjacent_free (head a)"
  shows "no_adjacent_free (head (snd (free a bid)))"
  using assms no_adjacent_free_free_loop [of "[]" "head a" bid]
  by (auto simp: free_def split: option.splits)

lemma no_adjacent_free_step:
  "no_adjacent_free (head a) \<Longrightarrow> no_adjacent_free (head (step a c))"
  by (cases c) (simp_all add: initMemory_def setStrategy_def no_adjacent_free_allocate no_adjacent_free_free)

lemma no_adjacent_free_foldl:
  "no_adjacent_free (head a) \<Longrightarrow> no_adjacent_free (head (foldl step a cmds))"
  by (induction cmds arbitrary: a) (simp_all add: no_adjacent_free_step)

text \<open>
  Claim C1. In every state the allocator reaches from construction by any sequence of
  \<^verbatim>\<open>initMemory\<close>, \<^verbatim>\<open>setStrategy\<close>, \<^verbatim>\<open>allocate\<close> and \<^verbatim>\<open>free\<close> calls, no two
  neighbouring nodes of the chain are both free: a split leaves its free remainder in
  front of a used node, and the two loops of \<^verbatim>\<open>coalesce\<close> absorb every free neighbour of
  the freed node.
\<close>

theorem reachable_no_adjacent_free: "no_adjacent_free (head (run cmds))"
  unfolding run_def by (rule no_adjacent_free_foldl) (simp add: Allocator_new_def)

text \<open>
  Three blocks are allocated; the outer two are freed, then the middle one: the three
  free neighbours (and the free tail) end up as one node.
\<close>

theorem reachable_no_adjacent_free_witness:
  "head (run [InitMemory 100, Allocate 10, Allocate 20, Allocate 30, Free 1, Free 3]) =
     [\<lparr>address = 0, size_blk = 10, is_free = True, block_id = - 1\<rparr>,
      \<lparr>address = 10, size_blk = 20, is_free = False, block_id = 2\<rparr>,
      \<lparr>address = 30, size_blk = 70, is_free = True, block_id = - 1\<rparr>] \<and>
   head (run [InitMemory 100, Allocate 10, Allocate 20, Allocate 30, Free 1, Free 3, Free 2]) =
     [\<lparr>address = 0, size_blk = 100, is_free = True, block_id = - 1\<rparr>] \<and>
   no_adjacent_free
     (head (run [InitMemory 100, Allocate 10, Allocate 20, Allocate 30, Free 1, Free 3, Free 2]))"
proof -
  have "head (run [InitMemory 100, Allocate 10, Allocate 20, Allocate 30, Free 1, Free 3]) =
     [\<lparr>address = 0, size_blk = 10, is_free = True, block_id = - 1\<rparr>,
      \<lparr>address = 10, size_blk = 20, is_free = False, block_id = 2\<rparr>,
      \<lparr>address = 30, size_blk = 70, is_free = True, block_id = - 1\<rparr>]"
    by code_simp
  moreover have
    "head (run [InitMemory 100, Allocate 10, Allocate 20, Allocate 30, Free 1, Free 3, Free 2]) =
     [\<lparr>address = 0, size_blk = 100, is_free = True, block_id = - 1\<rparr>]"
    by code_simp
  ultimately show ?thesis
    using reachable_no_adjacent_free
      [of "[InitMemory 100, Allocate 10, Allocate 20, Allocate 30, Free 1, Free 3, Free 2]"]
    by simp
qed

subsection \<open>Statistics\<close>

lemma free_sizes_simps [simp]:
  "free_sizes [] = []"
  "free_sizes (c # cs) = (if is_free c then unat (size_blk c) # free_sizes cs else free_sizes cs)"
  "free_sizes (xs @ ys) = free_sizes xs @ free_sizes ys"
  by (simp_all add: free_sizes_def)

lemma used_sizes_simps [simp]:
  "used_sizes [] = []"
  "used_sizes (c # cs) = (if is_free c then used_sizes cs else unat (size_blk c) # used_sizes cs)"
  "used_sizes (xs @ ys) = used_sizes xs @ used_sizes ys"
  by (simp_all add: used_sizes_def)

lemma chain_total_simps [simp]:
  "chain_total [] = 0"
  "chain_total (c # cs) = unat (size_blk c) + chain_total cs"
  "chain_total (xs @ ys) = chain_total xs + chain_total ys"
  by (simp_all add: chain_total_def)

lemma unat_add_small: "unat (x::size_t) + unat y < 2 ^ 64 \<Longrightarrow> unat (x + y) = unat x + unat y"
  by (simp add: unat_word_ariths)

lemma foldr_max_acc: "foldr max xs (max (m::nat) x) = max (foldr max xs m) x"
  by (induction xs) (simp_all add: max.assoc)

lemma updateStats_loop_exact:
  assumes "unat used + unat fr + chain_total cs < 2 ^ 64"
  shows "(case updateStats_loop cs (used, fr, largest, fr, n) of
      (used', fr', largest', total', n') \<Rightarrow>
        unat used' = unat used + sum_list (used_sizes cs) \<and>
        unat fr' = unat fr + sum_list (free_sizes cs) \<and>
        unat largest' = foldr max (free_sizes cs) (unat largest) \<and>
        total' = fr' \<and>
        n' = n + int (length (free_sizes cs)))"
  using assms
proof (induction cs arbitrary: used fr largest n)
  case Nil
  then show ?case by simp
next
  case (Cons c cs)
  show ?case
  proof (cases "is_free c")
    case True
    define largest1 where "largest1 = (if largest < size_blk c then size_blk c else largest)"
    from Cons.prems have small: "unat fr + unat (size_blk c) < 2 ^ 64" by simp
    then have fr: "unat (fr + size_blk c) = unat fr + unat (size_blk c)" by (rule unat_add_small)
    have lg: "unat largest1 = max (unat largest) (unat (size_blk c))"
      by (simp add: largest1_def word_less_nat_alt max_def)
    have step: "updateStats_loop (c # cs) (used, fr, largest, fr, n) =
        updateStats_loop cs (used, fr + size_blk c, largest1, fr + size_blk c, n + 1)"
      using True by (simp add: largest1_def)
    have "unat used + unat (fr + size_blk c) + chain_total cs < 2 ^ 64"
      using Cons.prems by (simp add: fr)
    from Cons.IH [OF this, of largest1 "n + 1"]
    show ?thesis
      unfolding step lg using True
      by (simp add: fr foldr_max_acc max.commute split: prod.splits)
  next
    case False
    from Cons.prems have small: "unat used + unat (size_blk c) < 2 ^ 64" by simp
    then have us: "unat (used + size_blk c) = unat used + unat (size_blk c)" by (rule unat_add_small)
    have "unat (used + size_blk c) + unat fr + chain_total cs < 2 ^ 64"
      using Cons.prems by (simp add: us)
    from Cons.IH [OF this, of largest n] False show ?thesis
      by (simp add: us split: prod.splits)
  qed
qed

lemma updateStats_agree:
  assumes "chain_total (head a) = unat (total_memory (stats a))"
  shows "stats_agree (updateStats a)"
proof -
  obtain used fr largest total n
    where loop: "updateStats_loop (head a) (0, 0, 0, 0, 0) = (used, fr, largest, total, n)"
    by (metis prod_cases5)
  have "unat (0::size_t) + unat (0::size_t) + chain_total (head a) < 2 ^ 64"
    using assms unsigned_less [of "total_memory (stats a)"] by simp
  from updateStats_loop_exact [OF this, of 0 0] loop
  have used: "unat used = sum_list (used_sizes (head a))"
    and fr: "unat fr = sum_list (free_sizes (head a))"
    and largest: "unat largest = foldr max (free_sizes (head a)) 0"
    and total: "total = fr"
    and n: "n = int (length (free_sizes (head a)))"
    by simp_all
  have pos: "0 < total \<longleftrightarrow> 0 < sum_list (free_sizes (head a))"
    unfolding total fr [symmetric] by (simp add: word_less_nat_alt)
  have cnt: "1 < n \<longleftrightarrow> 1 < length (free_sizes (head a))"
    unfolding n by simp
  have upd: "updateStats a = a\<lparr>stats := (stats a)
              \<lparr>used_memory := used, free_memory := fr,
               external_fragmentation :=
                 (if 0 < total \<and> 1 < n
                  then double_mul
                         (double_sub 1
                            (double_div (double_of_size_t largest) (double_of_size_t total)))
                         100
                  else 0)\<rparr>\<rparr>"
    by (simp add: updateStats_def loop)
  have conv: "double_of_size_t w = round_double (of_int (int (unat w)))" for w
    by (simp add: double_of_size_t_def)
  have frag: "(if 0 < total \<and> 1 < n
                  then double_mul
                         (double_sub 1
                            (double_div (double_of_size_t largest) (double_of_size_t total)))
                         100
                  else 0) = fragmentation_of (free_sizes (head a))"
    unfolding pos cnt conv largest unfolding total fr fragmentation_of_def fragmentation_percent_def
    by (simp only: conj_commute)
  show ?thesis
    unfolding upd frag using assms used fr
    by (simp add: stats_agree_def chain_total_def)
qed

lemma unat_size_t_less: "unat (x::size_t) < 2 ^ 64"
  using unsigned_less [of x] by simp

lemma chain_total_rev [simp]: "chain_total (rev ps) = chain_total ps"
  by (induction ps) simp_all

lemma stats_updateStats [simp]:
  "total_memory (stats (updateStats a)) = total_memory (stats a)"
  by (simp add: updateStats_def split: prod.splits)

lemma chain_total_allocate_nodes:
  assumes i: "i < length ch"
  shows "chain_total (take i ch @ (ch ! i)\<lparr>is_free := False, block_id := n\<rparr> # drop (Suc i) ch)
      = chain_total ch" (is "?one = _")
    and "sz < size_blk (ch ! i) \<Longrightarrow>
      chain_total (take i ch @
        (ch ! i)\<lparr>size_blk := sz, is_free := False, block_id := n\<rparr> #
         \<lparr>address = address (ch ! i) + sz, size_blk = size_blk (ch ! i) - sz,
          is_free = True, block_id = - 1\<rparr> # drop (Suc i) ch) = chain_total ch"
proof -
  have "chain_total ch = chain_total (take i ch @ ch ! i # drop (Suc i) ch)"
    using i by (simp add: id_take_nth_drop [symmetric])
  then have ch: "chain_total ch =
      chain_total (take i ch) + unat (size_blk (ch ! i)) + chain_total (drop (Suc i) ch)"
    by simp
  show "?one = chain_total ch" by (simp add: ch)
  assume "sz < size_blk (ch ! i)"
  then have "unat (size_blk (ch ! i) - sz) = unat (size_blk (ch ! i)) - unat sz"
    and "unat sz \<le> unat (size_blk (ch ! i))"
    by (simp_all add: unat_sub word_less_nat_alt word_le_nat_alt)
  then show "chain_total (take i ch @
        (ch ! i)\<lparr>size_blk := sz, is_free := False, block_id := n\<rparr> #
         \<lparr>address = address (ch ! i) + sz, size_blk = size_blk (ch ! i) - sz,
          is_free = True, block_id = - 1\<rparr> # drop (Suc i) ch) = chain_total ch"
    by (simp add: ch)
qed

lemma coalesce_next_total:
  "coalesce_next b ns = (b', ns') \<Longrightarrow> unat (size_blk b) + chain_total ns < 2 ^ 64 \<Longrightarrow>
     unat (size_blk b') + chain_total ns' = unat (size_blk b) + chain_total ns"
proof (induction b ns rule: coalesce_next.induct)
  case (1 block)
  then show ?case by simp
next
  case (2 block n ns)
  show ?case
  proof (cases "is_free n")
    case True
    from "2.prems"(2) have "unat (size_blk block) + unat (size_blk n) < 2 ^ 64" by simp
    then have sz: "unat (size_blk block + size_blk n) = unat (size_blk block) + unat (size_blk n)"
      by (rule unat_add_small)
    from "2.IH" [OF True] "2.prems" True show ?thesis by (simp add: sz)
  next
    case False
    with "2.prems" show ?thesis by auto
  qed
qed

lemma coalesce_prev_total:
  "coalesce_prev ps b = (ps', b') \<Longrightarrow> chain_total ps + unat (size_blk b) < 2 ^ 64 \<Longrightarrow>
     chain_total ps' + unat (size_blk b') = chain_total ps + unat (size_blk b)"
proof (induction ps b rule: coalesce_prev.induct)
  case (1 block)
  then show ?case by simp
next
  case (2 p ps block)
  show ?case
  proof (cases "is_free p")
    case True
    from "2.prems"(2) have "unat (size_blk p) + unat (size_blk block) < 2 ^ 64" by simp
    then have sz: "unat (size_blk p + size_blk block) = unat (size_blk p) + unat (size_blk block)"
      by (rule unat_add_small)
    from "2.IH" [OF True] "2.prems" True show ?thesis by (simp add: sz)
  next
    case False
    with "2.prems" show ?thesis by auto
  qed
qed

lemma chain_total_coalesce:
  assumes "chain_total ps + unat (size_blk b) + chain_total ns < 2 ^ 64"
  shows "chain_total (coalesce ps b ns) = chain_total ps + unat (size_blk b) + chain_total ns"
proof (cases "is_free b")
  case False
  then show ?thesis by (simp add: coalesce_def)
next
  case True
  obtain b1 ns' where n: "coalesce_next b ns = (b1, ns')" by (cases "coalesce_next b ns")
  obtain ps' b2 where p: "coalesce_prev ps b1 = (ps', b2)" by (cases "coalesce_prev ps b1")
  from assms have "unat (size_blk b) + chain_total ns < 2 ^ 64" by simp
  from coalesce_next_total [OF n this]
  have 1: "unat (size_blk b1) + chain_total ns' = unat (size_blk b) + chain_total ns" .
  with assms have "chain_total ps + unat (size_blk b1) < 2 ^ 64" by simp
  from coalesce_prev_total [OF p this]
  have 2: "chain_total ps' + unat (size_blk b2) = chain_total ps + unat (size_blk b1)" .
  from True n p 1 2 show ?thesis by (simp add: coalesce_def)
qed

lemma chain_total_free_loop:
  "free_loop ps cs bid = Some chain \<Longrightarrow> chain_total ps + chain_total cs < 2 ^ 64 \<Longrightarrow>
     chain_total chain = chain_total ps + chain_total cs"
proof (induction cs arbitrary: ps)
  case Nil
  then show ?case by simp
next
  case (Cons c cs)
  show ?case
  proof (cases "block_id c = bid \<and> \<not> is_free c")
    case True
    with Cons.prems(1) have chain: "chain = coalesce ps (c\<lparr>is_free := True, block_id := - 1\<rparr>) cs"
      by simp
    show ?thesis unfolding chain using Cons.prems(2)
      by (subst chain_total_coalesce) simp_all
  next
    case False
    with Cons.prems(1) have "free_loop (c # ps) cs bid = Some chain" by auto
    from Cons.IH [OF this] Cons.prems(2) show ?thesis by simp
  qed
qed

lemma stats_agree_total: "stats_agree a \<Longrightarrow> chain_total (head a) = unat (total_memory (stats a))"
  by (simp add: stats_agree_def chain_total_def)

lemma stats_agree_allocate:
  assumes "stats_agree a"
  shows "stats_agree (snd (allocate a sz))"
proof (cases "findFreeBlock a sz")
  case None
  with assms show ?thesis by (auto simp: allocate_def stats_agree_def)
next
  case (Some i)
  from findFreeBlock_Some [OF Some] have i: "i < length (head a)" by simp
  note tot = stats_agree_total [OF assms]
  show ?thesis
    using assms Some
    by (auto simp: allocate_def Let_def tot chain_total_allocate_nodes [OF i]
        simp del: chain_total_simps intro!: updateStats_agree)
qed

lemma stats_agree_free:
  assumes "stats_agree a"
  shows "stats_agree (snd (free a bid))"
proof (cases "free_loop [] (head a) bid")
  case None
  with assms show ?thesis by (simp add: free_def)
next
  case (Some chain)
  note tot = stats_agree_total [OF assms]
  have "chain_total [] + chain_total (head a) < 2 ^ 64"
    using tot unsigned_less [of "total_memory (stats a)"] by simp
  from chain_total_free_loop [OF Some this] have "chain_total chain = chain_total (head a)" by simp
  with assms Some tot show ?thesis
    by (auto simp: free_def intro!: updateStats_agree)
qed

lemma stats_agree_initMemory: "stats_agree (snd (initMemory a sz))"
  by (simp add: initMemory_def stats_agree_def AllocationStats_new_def fragmentation_of_def)

lemma stats_agree_step: "stats_agree a \<Longrightarrow> stats_agree (step a c)"
  by (cases c)
    (simp_all add: stats_agree_initMemory stats_agree_allocate stats_agree_free,
     simp add: setStrategy_def stats_agree_def)

lemma stats_agree_foldl: "stats_agree a \<Longrightarrow> stats_agree (foldl step a cmds)"
  by (induction cmds arbitrary: a) (simp_all add: stats_agree_step)

lemma stats_agree_run: "stats_agree (run cmds)"
  unfolding run_def
  by (rule stats_agree_foldl)
    (simp add: Allocator_new_def AllocationStats_new_def stats_agree_def fragmentation_of_def)

text \<open>
  Claim C7. In every state the allocator reaches (initialised or not),
  \<^verbatim>\<open>used_memory + free_memory == total_memory\<close>, as 64-bit values and also as numbers
  (the sum does not wrap), and \<^verbatim>\<open>used_memory\<close> and \<^verbatim>\<open>free_memory\<close> are the sums of the
  sizes of the used and of the free nodes of the chain.
\<close>

theorem used_plus_free_is_total:
  "used_memory (stats (run cmds)) + free_memory (stats (run cmds)) = total_memory (stats (run cmds)) \<and>
   unat (used_memory (stats (run cmds))) + unat (free_memory (stats (run cmds))) =
     unat (total_memory (stats (run cmds))) \<and>
   unat (used_memory (stats (run cmds))) = sum_list (used_sizes (head (run cmds))) \<and>
   unat (free_memory (stats (run cmds))) = sum_list (free_sizes (head (run cmds)))"
proof -
  let ?s = "stats (run cmds)"
  from stats_agree_run [of cmds]
  have sum: "unat (used_memory ?s) + unat (free_memory ?s) = unat (total_memory ?s)"
    and used: "unat (used_memory ?s) = sum_list (used_sizes (head (run cmds)))"
    and fr: "unat (free_memory ?s) = sum_list (free_sizes (head (run cmds)))"
    by (simp_all add: stats_agree_def)
  have "unat (used_memory ?s + free_memory ?s) = unat (total_memory ?s)"
    using sum unat_size_t_less [of "total_memory ?s"] by (simp add: unat_word_ariths)
  then have "used_memory ?s + free_memory ?s = total_memory ?s"
    by (simp only: word_unat_eq_iff)
  with sum used fr show ?thesis by simp
qed

theorem used_plus_free_is_total_witness:
  "used_memory (stats (run [InitMemory 1000, Allocate 200, Allocate 10, Allocate 150, Allocate 10, Allocate 150,
      Allocate 480, Free 1, Free 3, Free 5])) = 500 \<and>
   free_memory (stats (run [InitMemory 1000, Allocate 200, Allocate 10, Allocate 150, Allocate 10, Allocate 150,
      Allocate 480, Free 1, Free 3, Free 5])) = 500 \<and>
   total_memory (stats (run [InitMemory 1000, Allocate 200, Allocate 10, Allocate 150, Allocate 10, Allocate 150,
      Allocate 480, Free 1, Free 3, Free 5])) = 1000 \<and>
   used_sizes (head (run [InitMemory 1000, Allocate 200, Allocate 10, Allocate 150, Allocate 10, Allocate 150,
      Allocate 480, Free 1, Free 3, Free 5])) = [10, 10, 480] \<and>
   used_memory (stats (run [InitMemory 1000, Allocate 200, Allocate 10, Allocate 150, Allocate 10, Allocate 150,
      Allocate 480, Free 1, Free 3, Free 5])) + free_memory (stats (run [InitMemory 1000, Allocate 200, Allocate 10, Allocate 150, Allocate 10, Allocate 150,
      Allocate 480, Free 1, Free 3, Free 5])) = total_memory (stats (run [InitMemory 1000, Allocate 200, Allocate 10, Allocate 150, Allocate 10, Allocate 150,
      Allocate 480, Free 1, Free 3, Free 5]))"
proof -
  have "used_memory (stats (run [InitMemory 1000, Allocate 200, Allocate 10, Allocate 150, Allocate 10, Allocate 150,
      Allocate 480, Free 1, Free 3, Free 5])) = 500"
    by code_simp
  moreover have "free_memory (stats (run [InitMemory 1000, Allocate 200, Allocate 10, Allocate 150, Allocate 10, Allocate 150,
      Allocate 480, Free 1, Free 3, Free 5])) = 500"
    by code_simp
  moreover have "total_memory (stats (run [InitMemory 1000, Allocate 200, Allocate 10, Allocate 150, Allocate 10, Allocate 150,
      Allocate 480, Free 1, Free 3, Free 5])) = 1000"
    by code_simp
  moreover have "used_sizes (head (run [InitMemory 1000, Allocate 200, Allocate 10, Allocate 150, Allocate 10, Allocate 150,
      Allocate 480, Free 1, Free 3, Free 5])) = [10, 10, 480]"
    by code_simp
  ultimately show ?thesis
    using used_plus_free_is_total [of "[InitMemory 1000, Allocate 200, Allocate 10, Allocate 150, Allocate 10, Allocate 150,
      Allocate 480, Free 1, Free 3, Free 5]"]
    by simp
qed

lemma foldr_max_Max: "foldr max xs (0::nat) = Max (insert 0 (set xs))"
proof (induction xs)
  case Nil
  show ?case by simp
next
  case (Cons a xs)
  have "Max (insert a (insert 0 (set xs))) = max a (Max (insert 0 (set xs)))"
    by (rule Max_insert) simp_all
  with Cons show ?case by (simp add: insert_commute)
qed

lemma fragmentation_of_mset:
  "fragmentation_of fs =
     (if 1 < size (mset fs) \<and> 0 < sum_mset (mset fs)
      then fragmentation_percent (Max (insert 0 (set_mset (mset fs)))) (sum_mset (mset fs))
      else 0)"
  unfolding fragmentation_of_def foldr_max_Max
  by (simp only: size_mset sum_mset_sum_list set_mset_mset)

lemma fragmentation_percent_200_500: "fragmentation_percent 200 500 = 60"
  by code_simp

text \<open>
  Rounding on known values: one tenth is the \<^verbatim>\<open>double\<close> \<open>3602879701896397 / 2 ^ 55\<close>, one half
  is a \<^verbatim>\<open>double\<close>, and from \<open>2 ^ 53\<close> on the odd integers fall between two \<^verbatim>\<open>double\<close>s and go to
  the neighbour with the even significand, also when a \<^verbatim>\<open>size_t\<close> is converted.
\<close>

lemma round_double_examples:
  "round_double (1 / 10) = 3602879701896397 / 36028797018963968"
  "round_double (1 / 2) = 1 / 2"
  "round_double (- 3) = - 3"
  "round_double 9007199254740993 = 9007199254740992"
  "round_double 9007199254740995 = 9007199254740996"
  "double_of_size_t (- 1) = 18446744073709551616"
  by code_simp+

text \<open>
  Claim C9, as amended. In every state the allocator reaches, \<^verbatim>\<open>external_fragmentation\<close>
  is \<open>(1 - largest / total) * 100\<close> computed in \<^verbatim>\<open>double\<close>, every conversion and operation
  rounded to the nearest \<^verbatim>\<open>double\<close>, for the largest and the summed size of the free nodes
  when there is more than one free node and their sizes sum to more than 0, and 0
  otherwise; it is exactly 60 when the free nodes have the sizes 200, 150 and 150.
\<close>

theorem external_fragmentation_formula:
  "external_fragmentation (stats (run cmds)) = fragmentation_of (free_sizes (head (run cmds))) \<and>
   (mset (free_sizes (head (run cmds))) = {#200, 150, 150#} \<longrightarrow>
      external_fragmentation (stats (run cmds)) = 60)"
proof -
  have eq: "external_fragmentation (stats (run cmds)) = fragmentation_of (free_sizes (head (run cmds)))"
    using stats_agree_run [of cmds] by (simp add: stats_agree_def)
  have "fragmentation_of fs = 60" if "mset fs = {#200, 150, 150#}" for fs
  proof -
    have "fragmentation_of fs =
       (if 1 < size {#200, 150, 150::nat#} \<and> 0 < sum_mset {#200, 150, 150::nat#}
        then fragmentation_percent (Max (insert 0 (set_mset {#200, 150, 150::nat#})))
               (sum_mset {#200, 150, 150::nat#})
        else 0)"
      unfolding that [symmetric] by (rule fragmentation_of_mset)
    also have "\<dots> = fragmentation_percent 200 500" by simp
    finally show ?thesis by (simp only: fragmentation_percent_200_500)
  qed
  with eq show ?thesis by simp
qed

theorem external_fragmentation_formula_witness:
  "free_sizes (head (run [InitMemory 1000, Allocate 200, Allocate 10, Allocate 150, Allocate 10, Allocate 150,
      Allocate 480, Free 1, Free 3, Free 5])) = [200, 150, 150] \<and>
   external_fragmentation (stats (run [InitMemory 1000, Allocate 200, Allocate 10, Allocate 150, Allocate 10, Allocate 150,
      Allocate 480, Free 1, Free 3, Free 5])) = 60"
proof -
  have fs: "free_sizes (head (run [InitMemory 1000, Allocate 200, Allocate 10, Allocate 150, Allocate 10, Allocate 150,
      Allocate 480, Free 1, Free 3, Free 5])) = [200, 150, 150]"
    by code_simp
  then have "mset (free_sizes (head (run [InitMemory 1000, Allocate 200, Allocate 10, Allocate 150, Allocate 10, Allocate 150,
      Allocate 480, Free 1, Free 3, Free 5]))) = {#200, 150, 150#}"
    by simp
  with fs show ?thesis
    using external_fragmentation_formula [of "[InitMemory 1000, Allocate 200, Allocate 10, Allocate 150, Allocate 10, Allocate 150,
      Allocate 480, Free 1, Free 3, Free 5]"]
    by simp
qed

text \<open>
  The claim as first stated takes the formula as exact. After \<^verbatim>\<open>init 101\<close>, \<^verbatim>\<open>malloc 10\<close>,
  \<^verbatim>\<open>malloc 1\<close>, \<^verbatim>\<open>free 1\<close> the free nodes have the sizes 10 and 90, so that the formula
  gives \<open>(1 - 90 / 100) * 100 = 10\<close>; the quotient \<open>90 / 100\<close> is no \<^verbatim>\<open>double\<close>, and
  \<^verbatim>\<open>updateStats\<close> stores 9.999999999999998, the \<^verbatim>\<open>double\<close> below 10.
\<close>

theorem external_fragmentation_rounding_counterexample:
  "free_sizes (head (run [InitMemory 101, Allocate 10, Allocate 1, Free 1])) = [10, 90] \<and>
   external_fragmentation (stats (run [InitMemory 101, Allocate 10, Allocate 1, Free 1])) =
     5629499534213119 / 562949953421312 \<and>
   external_fragmentation (stats (run [InitMemory 101, Allocate 10, Allocate 1, Free 1])) \<noteq>
     (1 - 90 / 100) * 100"
  by code_simp

text \<open>
  When the largest free node is nearly all of the free memory the quotient rounds to 1,
  and the stored figure is 0 although two nodes of non-zero size are free.
\<close>

lemma external_fragmentation_rounds_to_zero:
  "map size_blk (filter is_free (head (run [InitMemory (- 1), Allocate 3, Allocate 1, Free 1]))) =
     [3, - 5] \<and>
   external_fragmentation (stats (run [InitMemory (- 1), Allocate 3, Allocate 1, Free 1])) = 0"
  by code_simp

subsection \<open>Failing requests\<close>

lemma findFreeBlock_None:
  assumes "\<not> can_fit (head a) sz"
  shows "findFreeBlock a sz = None"
proof (rule ccontr)
  assume "findFreeBlock a sz \<noteq> None"
  then obtain i where "findFreeBlock a sz = Some i" by auto
  from findFreeBlock_Some [OF this] have "can_fit (head a) sz"
    by (auto simp: can_fit_def list_ex_iff)
  with assms show False by simp
qed

text \<open>
  Claim C8, with the request taken to be non-zero. On an initialised allocator, a
  request of a non-zero size that no free node can hold makes \<^verbatim>\<open>allocate\<close> fail in its
  out-of-memory branch; the state afterwards is the state before with
  \<^verbatim>\<open>allocation_failures\<close> one higher: the chain, the id counter, the strategy and every
  other statistic are unchanged.
\<close>

theorem allocate_out_of_memory:
  assumes "isInitialized a" and "sz \<noteq> 0" and "\<not> can_fit (head a) sz"
  shows "allocate a sz =
     (Inl OutOfMemory,
      a\<lparr>stats := (stats a)\<lparr>allocation_failures := allocation_failures (stats a) + 1\<rparr>\<rparr>) \<and>
     allocate_return (fst (allocate a sz)) = - 1"
  using assms findFreeBlock_None [OF assms(3)]
  by (simp add: allocate_def isInitialized_def allocate_return_def)

theorem allocate_out_of_memory_witness:
  "isInitialized (run [InitMemory 100, Allocate 60]) \<and>
   \<not> can_fit (head (run [InitMemory 100, Allocate 60])) 50 \<and>
   fst (allocate (run [InitMemory 100, Allocate 60]) 50) = Inl OutOfMemory \<and>
   head (snd (allocate (run [InitMemory 100, Allocate 60]) 50)) =
     [\<lparr>address = 0, size_blk = 60, is_free = False, block_id = 1\<rparr>,
      \<lparr>address = 60, size_blk = 40, is_free = True, block_id = - 1\<rparr>] \<and>
   allocation_failures (stats (snd (allocate (run [InitMemory 100, Allocate 60]) 50))) = 1"
proof -
  have 1: "isInitialized (run [InitMemory 100, Allocate 60])" by code_simp
  have 2: "\<not> can_fit (head (run [InitMemory 100, Allocate 60])) 50" by code_simp
  have 3: "head (run [InitMemory 100, Allocate 60]) =
     [\<lparr>address = 0, size_blk = 60, is_free = False, block_id = 1\<rparr>,
      \<lparr>address = 60, size_blk = 40, is_free = True, block_id = - 1\<rparr>]" by code_simp
  have 4: "allocation_failures (stats (run [InitMemory 100, Allocate 60])) = 0" by code_simp
  from allocate_out_of_memory [OF 1 _ 2] 1 2 3 4 show ?thesis by simp
qed

text \<open>
  Claim C8 as it is worded also covers a request of 0 bytes on a chain with no free
  node: no free node has room for it, yet \<^verbatim>\<open>allocate\<close> leaves through its zero-size
  check, which comes before the search, and counts no failure.
\<close>

theorem allocate_zero_request_counterexample:
  "isInitialized (run [InitMemory 10, Allocate 10]) \<and>
   \<not> can_fit (head (run [InitMemory 10, Allocate 10])) 0 \<and>
   allocate (run [InitMemory 10, Allocate 10]) 0 = (Inl InvalidSize, run [InitMemory 10, Allocate 10]) \<and>
   allocation_failures (stats (snd (allocate (run [InitMemory 10, Allocate 10]) 0))) = 0"
proof -
  have 1: "isInitialized (run [InitMemory 10, Allocate 10])" by code_simp
  have 2: "\<not> can_fit (head (run [InitMemory 10, Allocate 10])) 0" by code_simp
  have 3: "allocate (run [InitMemory 10, Allocate 10]) 0 = (Inl InvalidSize, run [InitMemory 10, Allocate 10])"
    using 1 by (simp add: allocate_def isInitialized_def)
  have 4: "allocation_failures (stats (run [InitMemory 10, Allocate 10])) = 0" by code_simp
  from 1 2 3 4 show ?thesis by simp
qed

subsection \<open>A memory of 0 bytes\<close>

lemma allocate_zero_chain:
  assumes "head a = [\<lparr>address = 0, size_blk = 0, is_free = True, block_id = - 1\<rparr>]"
  shows "fst (allocate a sz) = (if sz = 0 then Inl InvalidSize else Inl OutOfMemory) \<and>
    head (snd (allocate a sz)) = head a"
proof (cases "sz = 0")
  case True
  with assms show ?thesis by (simp add: allocate_def)
next
  case False
  then have "\<not> sz \<le> 0" by (simp add: word_le_nat_alt unat_eq_0)
  then have "\<not> can_fit (head a) sz" by (simp add: assms can_fit_def)
  from findFreeBlock_None [OF this] False assms show ?thesis by (simp add: allocate_def)
qed

lemma allocate_all_zero_chain:
  assumes "head a = [\<lparr>address = 0, size_blk = 0, is_free = True, block_id = - 1\<rparr>]"
  shows "fst (allocate_all a szs) = map (\<lambda>sz. if sz = 0 then Inl InvalidSize else Inl OutOfMemory) szs \<and>
    head (snd (allocate_all a szs)) = head a"
  using assms
proof (induction szs arbitrary: a)
  case Nil
  then show ?case by simp
next
  case (Cons sz szs)
  from allocate_zero_chain [OF Cons.prems, of sz]
  have r: "fst (allocate a sz) = (if sz = 0 then Inl InvalidSize else Inl OutOfMemory)"
    and h: "head (snd (allocate a sz)) = head a" by simp_all
  from Cons.IH [of "snd (allocate a sz)"] h Cons.prems
  have "fst (allocate_all (snd (allocate a sz)) szs) =
      map (\<lambda>sz. if sz = 0 then Inl InvalidSize else Inl OutOfMemory) szs"
    and "head (snd (allocate_all (snd (allocate a sz)) szs)) = head a" by simp_all
  with r show ?case by (simp add: split_beta)
qed

text \<open>
  Claim C10. \<^verbatim>\<open>initMemory(0)\<close> returns \<^verbatim>\<open>true\<close> and leaves an initialised allocator
  whose chain is one free node of size 0 at address 0. Every \<^verbatim>\<open>allocate\<close> call made
  from there on, whatever the sizes asked for, fails: in the zero-size branch for a
  request of 0 and in the out-of-memory branch otherwise; the chain stays as it is.
\<close>

theorem initMemory_zero:
  "fst (initMemory a 0) = True \<and>
   isInitialized (snd (initMemory a 0)) \<and>
   head (snd (initMemory a 0)) = [\<lparr>address = 0, size_blk = 0, is_free = True, block_id = - 1\<rparr>] \<and>
   fst (allocate_all (snd (initMemory a 0)) szs) =
     map (\<lambda>sz. if sz = 0 then Inl InvalidSize else Inl OutOfMemory) szs \<and>
   head (snd (allocate_all (snd (initMemory a 0)) szs)) =
     [\<lparr>address = 0, size_blk = 0, is_free = True, block_id = - 1\<rparr>]"
proof -
  have h: "head (snd (initMemory a 0)) = [\<lparr>address = 0, size_blk = 0, is_free = True, block_id = - 1\<rparr>]"
    by (simp add: initMemory_def)
  from allocate_all_zero_chain [OF h, of szs] h show ?thesis
    by (simp add: initMemory_def isInitialized_def)
qed

theorem initMemory_zero_witness:
  "fst (initMemory Allocator_new 0) = True \<and>
   isInitialized (snd (initMemory Allocator_new 0)) \<and>
   fst (allocate_all (snd (initMemory Allocator_new 0)) [1, 0, 8]) =
     [Inl OutOfMemory, Inl InvalidSize, Inl OutOfMemory] \<and>
   allocation_failures (stats (snd (allocate_all (snd (initMemory Allocator_new 0)) [1, 0, 8]))) = 2"
proof -
  have "allocation_failures (stats (snd (allocate_all (snd (initMemory Allocator_new 0)) [1, 0, 8]))) = 2"
    by code_simp
  with initMemory_zero [of Allocator_new "[1, 0, 8]"] show ?thesis by simp
qed

subsection \<open>The three placement strategies on free nodes of 100, 50 and 200 bytes\<close>

lemma firstFit_loop_skip:
  "\<forall>u\<in>set us. \<not> is_free u \<Longrightarrow>
     firstFit_loop (us @ rest) i sz = firstFit_loop rest (i + length us) sz"
  by (induction us arbitrary: i) simp_all

lemma bestFit_loop_skip:
  "\<forall>u\<in>set us. \<not> is_free u \<Longrightarrow>
     bestFit_loop (us @ rest) i sz best = bestFit_loop rest (i + length us) sz best"
  by (induction us arbitrary: i) simp_all

lemma worstFit_loop_skip:
  "\<forall>u\<in>set us. \<not> is_free u \<Longrightarrow>
     worstFit_loop (us @ rest) i sz worst = worstFit_loop rest (i + length us) sz worst"
  by (induction us arbitrary: i) simp_all

lemma bestFit_loop_used [simp]:
  "\<forall>u\<in>set us. \<not> is_free u \<Longrightarrow> bestFit_loop us i sz best = best"
  using bestFit_loop_skip [of us "[]" i sz best] by simp

lemma worstFit_loop_used [simp]:
  "\<forall>u\<in>set us. \<not> is_free u \<Longrightarrow> worstFit_loop us i sz worst = worst"
  using worstFit_loop_skip [of us "[]" i sz worst] by simp

text \<open>A chain with exactly three free nodes, cut at them.\<close>

lemma three_free_nodes:
  assumes "free_sizes ch = [x, y, z]"
  obtains us0 b1 us1 b2 us2 b3 us3 where
    "ch = us0 @ b1 # us1 @ b2 # us2 @ b3 # us3"
    "\<forall>u\<in>set us0. \<not> is_free u" "\<forall>u\<in>set us1. \<not> is_free u"
    "\<forall>u\<in>set us2. \<not> is_free u" "\<forall>u\<in>set us3. \<not> is_free u"
    "is_free b1" "is_free b2" "is_free b3"
    "unat (size_blk b1) = x" "unat (size_blk b2) = y" "unat (size_blk b3) = z"
proof -
  from assms obtain b1 b2 b3 where f: "filter is_free ch = [b1, b2, b3]"
    and sz: "unat (size_blk b1) = x" "unat (size_blk b2) = y" "unat (size_blk b3) = z"
    by (auto simp: free_sizes_def map_eq_Cons_conv)
  from f have "\<exists>us vs. ch = us @ b1 # vs \<and> (\<forall>u\<in>set us. \<not> is_free u) \<and> is_free b1 \<and>
      [b2, b3] = filter is_free vs"
    by (simp add: filter_eq_Cons_iff)
  then obtain us0 r1 where 1: "ch = us0 @ b1 # r1" "\<forall>u\<in>set us0. \<not> is_free u" "is_free b1"
    "filter is_free r1 = [b2, b3]"
    by metis
  from 1(4) have "\<exists>us vs. r1 = us @ b2 # vs \<and> (\<forall>u\<in>set us. \<not> is_free u) \<and> is_free b2 \<and>
      [b3] = filter is_free vs"
    by (simp add: filter_eq_Cons_iff)
  then obtain us1 r2 where 2: "r1 = us1 @ b2 # r2" "\<forall>u\<in>set us1. \<not> is_free u" "is_free b2"
    "filter is_free r2 = [b3]"
    by metis
  from 2(4) have "\<exists>us vs. r2 = us @ b3 # vs \<and> (\<forall>u\<in>set us. \<not> is_free u) \<and> is_free b3 \<and>
      [] = filter is_free vs"
    by (simp add: filter_eq_Cons_iff)
  then obtain us2 us3 where 3: "r2 = us2 @ b3 # us3" "\<forall>u\<in>set us2. \<not> is_free u" "is_free b3"
    "filter is_free us3 = []"
    by metis
  from 3(4) have 4: "\<forall>u\<in>set us3. \<not> is_free u" by (simp add: filter_empty_conv)
  show ?thesis
    by (rule that [of us0 b1 us1 b2 us2 b3 us3]) (use 1 2 3 4 sz in simp_all)
qed

lemma allocate_Some:
  assumes "findFreeBlock a sz = Some i" and "head a \<noteq> []" and "sz \<noteq> 0"
  shows "fst (allocate a sz) = Inr (next_block_id a) \<and>
    head (snd (allocate a sz)) ! i =
      (head a ! i)\<lparr>size_blk := sz, is_free := False, block_id := next_block_id a\<rparr>"
proof -
  from findFreeBlock_Some [OF assms(1)]
  have i: "i < length (head a)" and le: "sz \<le> size_blk (head a ! i)" by simp_all
  have len: "length (take i (head a)) = i" using i by simp
  have same: "(head a ! i)\<lparr>size_blk := sz\<rparr> = head a ! i" if "\<not> sz < size_blk (head a ! i)"
    using that le by simp
  show ?thesis
    using assms len same
    by (simp add: allocate_def Let_def nth_append)
qed

text \<open>
  Claim C2. On every chain whose free nodes have, in chain order, the sizes 100, 50
  and 200, a request of 40 bytes is placed in the free node of size 100 under first
  fit, of size 50 under best fit and of size 200 under worst fit: the search returns
  that node, and \<^verbatim>\<open>allocate\<close> succeeds with the next id and turns that node into the
  used node of 40 bytes.
\<close>

theorem placement_100_50_200:
  assumes "free_sizes (head a) = [100, 50, 200]"
  shows "\<exists>i<length (head a).
     is_free (head a ! i) \<and>
     size_blk (head a ! i) =
       (case strategy a of FIRST_FIT \<Rightarrow> 100 | BEST_FIT \<Rightarrow> 50 | WORST_FIT \<Rightarrow> 200) \<and>
     findFreeBlock a 40 = Some i \<and>
     fst (allocate a 40) = Inr (next_block_id a) \<and>
     head (snd (allocate a 40)) ! i =
       (head a ! i)\<lparr>size_blk := 40, is_free := False, block_id := next_block_id a\<rparr>"
proof -
  from assms obtain us0 b1 us1 b2 us2 b3 us3 where
    ch: "head a = us0 @ b1 # us1 @ b2 # us2 @ b3 # us3"
    and us: "\<forall>u\<in>set us0. \<not> is_free u" "\<forall>u\<in>set us1. \<not> is_free u"
      "\<forall>u\<in>set us2. \<not> is_free u" "\<forall>u\<in>set us3. \<not> is_free u"
    and fr: "is_free b1" "is_free b2" "is_free b3"
    and sz: "unat (size_blk b1) = 100" "unat (size_blk b2) = 50" "unat (size_blk b3) = 200"
    by (rule three_free_nodes)
  from sz have sz': "size_blk b1 = 100" "size_blk b2 = 50" "size_blk b3 = 200"
    by (simp_all add: word_unat_eq_iff)
  define i1 where "i1 = length us0"
  define i2 where "i2 = length us0 + Suc (length us1)"
  define i3 where "i3 = length us0 + Suc (length us1 + Suc (length us2))"
  have nth: "head a ! i1 = b1" "head a ! i2 = b2" "head a ! i3 = b3"
    and len: "i1 < length (head a)" "i2 < length (head a)" "i3 < length (head a)"
    by (simp_all add: ch i1_def i2_def i3_def nth_append)
  have first: "firstFit_loop (head a) 0 40 = Some i1"
    unfolding ch by (simp add: firstFit_loop_skip us fr sz' i1_def)
  have best: "bestFit_loop (head a) 0 40 None = Some (i2, b2)"
    unfolding ch by (simp add: bestFit_loop_skip us fr sz' i2_def)
  have worst: "worstFit_loop (head a) 0 40 None = Some (i3, b3)"
    unfolding ch by (simp add: worstFit_loop_skip us fr sz' i3_def)
  have ne: "head a \<noteq> []" by (simp add: ch)
  show ?thesis
  proof (cases "strategy a")
    case FIRST_FIT
    then have f: "findFreeBlock a 40 = Some i1"
      by (simp add: findFreeBlock_def firstFit_def first)
    from allocate_Some [OF f ne] f len nth fr sz' FIRST_FIT show ?thesis by auto
  next
    case BEST_FIT
    then have f: "findFreeBlock a 40 = Some i2"
      by (simp add: findFreeBlock_def bestFit_def best)
    from allocate_Some [OF f ne] f len nth fr sz' BEST_FIT show ?thesis by auto
  next
    case WORST_FIT
    then have f: "findFreeBlock a 40 = Some i3"
      by (simp add: findFreeBlock_def worstFit_def worst)
    from allocate_Some [OF f ne] f len nth fr sz' WORST_FIT show ?thesis by auto
  qed
qed

theorem placement_100_50_200_witness:
  "free_sizes (head (run [InitMemory 1000, Allocate 100, Allocate 8, Allocate 50, Allocate 8, Allocate 200,
      Allocate 634, Free 1, Free 3, Free 5, SetStrategy BEST_FIT])) = [100, 50, 200] \<and>
   findFreeBlock (setStrategy (run [InitMemory 1000, Allocate 100, Allocate 8, Allocate 50, Allocate 8, Allocate 200,
      Allocate 634, Free 1, Free 3, Free 5, SetStrategy BEST_FIT]) FIRST_FIT) 40 = Some 0 \<and>
   findFreeBlock (setStrategy (run [InitMemory 1000, Allocate 100, Allocate 8, Allocate 50, Allocate 8, Allocate 200,
      Allocate 634, Free 1, Free 3, Free 5, SetStrategy BEST_FIT]) BEST_FIT) 40 = Some 2 \<and>
   findFreeBlock (setStrategy (run [InitMemory 1000, Allocate 100, Allocate 8, Allocate 50, Allocate 8, Allocate 200,
      Allocate 634, Free 1, Free 3, Free 5, SetStrategy BEST_FIT]) WORST_FIT) 40 = Some 4 \<and>
   (\<exists>i<length (head (run [InitMemory 1000, Allocate 100, Allocate 8, Allocate 50, Allocate 8, Allocate 200,
      Allocate 634, Free 1, Free 3, Free 5, SetStrategy BEST_FIT])).
      is_free (head (run [InitMemory 1000, Allocate 100, Allocate 8, Allocate 50, Allocate 8, Allocate 200,
      Allocate 634, Free 1, Free 3, Free 5, SetStrategy BEST_FIT]) ! i) \<and> size_blk (head (run [InitMemory 1000, Allocate 100, Allocate 8, Allocate 50, Allocate 8, Allocate 200,
      Allocate 634, Free 1, Free 3, Free 5, SetStrategy BEST_FIT]) ! i) = 50 \<and>
      findFreeBlock (run [InitMemory 1000, Allocate 100, Allocate 8, Allocate 50, Allocate 8, Allocate 200,
      Allocate 634, Free 1, Free 3, Free 5, SetStrategy BEST_FIT]) 40 = Some i \<and>
      fst (allocate (run [InitMemory 1000, Allocate 100, Allocate 8, Allocate 50, Allocate 8, Allocate 200,
      Allocate 634, Free 1, Free 3, Free 5, SetStrategy BEST_FIT]) 40) = Inr 7)"
proof -
  have fs: "free_sizes (head (run [InitMemory 1000, Allocate 100, Allocate 8, Allocate 50, Allocate 8, Allocate 200,
      Allocate 634, Free 1, Free 3, Free 5, SetStrategy BEST_FIT])) = [100, 50, 200]"
    by code_simp
  have st: "strategy (run [InitMemory 1000, Allocate 100, Allocate 8, Allocate 50, Allocate 8, Allocate 200,
      Allocate 634, Free 1, Free 3, Free 5, SetStrategy BEST_FIT]) = BEST_FIT" "next_block_id (run [InitMemory 1000, Allocate 100, Allocate 8, Allocate 50, Allocate 8, Allocate 200,
      Allocate 634, Free 1, Free 3, Free 5, SetStrategy BEST_FIT]) = 7"
    by code_simp+
  have 1: "findFreeBlock (setStrategy (run [InitMemory 1000, Allocate 100, Allocate 8, Allocate 50, Allocate 8, Allocate 200,
      Allocate 634, Free 1, Free 3, Free 5, SetStrategy BEST_FIT]) FIRST_FIT) 40 = Some 0"
    by code_simp
  have 2: "findFreeBlock (setStrategy (run [InitMemory 1000, Allocate 100, Allocate 8, Allocate 50, Allocate 8, Allocate 200,
      Allocate 634, Free 1, Free 3, Free 5, SetStrategy BEST_FIT]) BEST_FIT) 40 = Some 2"
    by code_simp
  have 3: "findFreeBlock (setStrategy (run [InitMemory 1000, Allocate 100, Allocate 8, Allocate 50, Allocate 8, Allocate 200,
      Allocate 634, Free 1, Free 3, Free 5, SetStrategy BEST_FIT]) WORST_FIT) 40 = Some 4"
    by code_simp
  from placement_100_50_200 [OF fs] st
  have "\<exists>i<length (head (run [InitMemory 1000, Allocate 100, Allocate 8, Allocate 50, Allocate 8, Allocate 200,
      Allocate 634, Free 1, Free 3, Free 5, SetStrategy BEST_FIT])).
      is_free (head (run [InitMemory 1000, Allocate 100, Allocate 8, Allocate 50, Allocate 8, Allocate 200,
      Allocate 634, Free 1, Free 3, Free 5, SetStrategy BEST_FIT]) ! i) \<and> size_blk (head (run [InitMemory 1000, Allocate 100, Allocate 8, Allocate 50, Allocate 8, Allocate 200,
      Allocate 634, Free 1, Free 3, Free 5, SetStrategy BEST_FIT]) ! i) = 50 \<and>
      findFreeBlock (run [InitMemory 1000, Allocate 100, Allocate 8, Allocate 50, Allocate 8, Allocate 200,
      Allocate 634, Free 1, Free 3, Free 5, SetStrategy BEST_FIT]) 40 = Some i \<and>
      fst (allocate (run [InitMemory 1000, Allocate 100, Allocate 8, Allocate 50, Allocate 8, Allocate 200,
      Allocate 634, Free 1, Free 3, Free 5, SetStrategy BEST_FIT]) 40) = Inr 7"
    by auto
  with fs 1 2 3 show ?thesis by simp
qed

section \<open>Verification of the cache hierarchy\<close>

subsection \<open>Well-formed levels\<close>

lemma wf_levelD:
  assumes "wf_level lg lvl"
  shows "block_size lvl \<noteq> 0" "num_sets lvl \<noteq> 0" "associativity lvl \<noteq> 0"
    "length (sets lvl) = unat (num_sets lvl)" "length (fifo_queues lvl) = unat (num_sets lvl)"
    "\<And>s. s < unat (num_sets lvl) \<Longrightarrow> wf_set lvl s"
    "lg (block_size lvl) < 64" "lg (block_size lvl) + lg (num_sets lvl) < 64"
  using assms by (auto simp: wf_level_def list_all_iff)

lemma CacheLevel_new_Inr:
  assumes "CacheLevel_new room nm sz bs assoc pol lat = Inr lvl"
  shows "bs \<noteq> 0" "assoc \<noteq> 0"
    "lvl = \<lparr>name = nm, size_lvl = sz, block_size = bs,
              associativity = assoc, num_sets = sz div bs div assoc, num_lines = sz div bs,
              sets = replicate (unat (sz div bs div assoc)) (replicate (unat assoc) CacheLine_new),
              fifo_queues = replicate (unat (sz div bs div assoc)) [],
              policy = pol, level_stats = CacheStats_new, access_counter = 0,
              access_latency = lat\<rparr>"
  using assms by (auto simp: CacheLevel_new_def Let_def split: if_splits)

lemma wf_CacheLevel_new:
  assumes "CacheLevel_new room nm sz bs assoc pol lat = Inr lvl" and "num_sets lvl \<noteq> 0"
    and "lg (block_size lvl) < 64" and "lg (block_size lvl) + lg (num_sets lvl) < 64"
  shows "wf_level lg lvl"
proof -
  note n = CacheLevel_new_Inr [OF assms(1)]
  have "filter (\<lambda>i. valid (replicate (unat assoc) CacheLine_new ! i)) [0..<unat assoc] = []"
    by (simp add: filter_empty_conv CacheLine_new_def)
  with n(1,2) assms(2,3,4) show ?thesis
    unfolding n(3) by (simp add: wf_level_def wf_set_def list_all_iff)
qed

lemma getSetIndex_Inr:
  assumes "getSetIndex lg lvl addr = Inr s"
  shows "block_size lvl \<noteq> 0" "num_sets lvl \<noteq> 0" "lg (block_size lvl) < 64"
    "s = drop_bit (unat (lg (block_size lvl))) addr mod num_sets lvl"
    "unat s < unat (num_sets lvl)"
proof -
  from assms show 1: "block_size lvl \<noteq> 0" and 2: "num_sets lvl \<noteq> 0"
    and 3: "lg (block_size lvl) < 64"
    and 4: "s = drop_bit (unat (lg (block_size lvl))) addr mod num_sets lvl"
    by (auto simp: getSetIndex_def Let_def split: if_splits)
  from 2 show "unat s < unat (num_sets lvl)"
    unfolding 4 by (simp add: unat_mod unat_gt_0)
qed

lemma getTag_Inr:
  assumes "getTag lg lvl addr = Inr tg"
  shows "lg (block_size lvl) + lg (num_sets lvl) < 64"
  using assms by (auto simp: getTag_def Let_def split: if_splits)

lemma getSetIndex_wf:
  assumes "wf_level lg lvl"
  shows "getSetIndex lg lvl addr =
      Inr (drop_bit (unat (lg (block_size lvl))) addr mod num_sets lvl)"
    and "unat (drop_bit (unat (lg (block_size lvl))) addr mod num_sets lvl) < unat (num_sets lvl)"
  using wf_levelD(1,2,7) [OF assms]
  by (simp_all add: getSetIndex_def unat_mod unat_gt_0)

lemma getSetIndex_less:
  "getSetIndex lg lvl addr = Inr s \<Longrightarrow> unat s < unat (num_sets lvl)"
  by (rule getSetIndex_Inr(5))

lemma getTag_wf:
  assumes "wf_level lg lvl"
  shows "\<exists>tg. getTag lg lvl addr = Inr tg"
  using wf_levelD(1,2,8) [OF assms] by (simp add: getTag_def)

subsection \<open>findVictim\<close>

lemma lru_fold_in:
  "fst (foldl (\<lambda>(victim, min_access) i.
          if last_access (st ! i) < min_access then (i, last_access (st ! i))
          else (victim, min_access)) (v0, m0) is) \<in> insert v0 (set is)"
proof (induction "is" arbitrary: v0 m0)
  case Nil
  show ?case by simp
next
  case (Cons i "is")
  show ?case
    using Cons.IH [of i "last_access (st ! i)"] Cons.IH [of v0 m0] by auto
qed

lemma find_Some_first:
  "find P [0..<n] = Some i \<Longrightarrow> i < n \<and> P i \<and> (\<forall>j<i. \<not> P j)"
  by (auto simp: find_Some_iff)

lemma findVictim_invalid:
  assumes "find (\<lambda>i. \<not> valid (sets lvl ! s ! i)) [0..<unat (associativity lvl)] = Some v"
  shows "findVictim lvl s = Inr (v, lvl)" "v < unat (associativity lvl)" "\<not> valid (sets lvl ! s ! v)"
  using assms find_Some_first [OF assms] by (simp_all add: findVictim_def)

lemma all_valid_filter:
  assumes "find (\<lambda>i. \<not> valid (st ! i)) [0..<n] = None"
  shows "filter (\<lambda>i. valid (st ! i)) [0..<n] = [0..<n]"
  using assms by (simp add: find_None_iff)

lemma findVictim_fifo:
  assumes wf: "wf_level lg lvl" and s: "s < unat (num_sets lvl)" and fifo: "policy lvl = FIFO"
    and full: "find (\<lambda>i. \<not> valid (sets lvl ! s ! i)) [0..<unat (associativity lvl)] = None"
  obtains v q where "fifo_queues lvl ! s = v # q" "v < unat (associativity lvl)" "v \<notin> set q"
    "distinct q" "findVictim lvl s = Inr (v, lvl\<lparr>fifo_queues := (fifo_queues lvl)[s := q]\<rparr>)"
proof -
  from wf_levelD(6) [OF wf s] fifo
  have d: "distinct (fifo_queues lvl ! s)"
    and q: "set (fifo_queues lvl ! s) =
      set (filter (\<lambda>i. valid (sets lvl ! s ! i)) [0..<unat (associativity lvl)])"
    by (simp_all add: wf_set_def)
  from q have q': "set (fifo_queues lvl ! s) = {0..<unat (associativity lvl)}"
    by (simp only: all_valid_filter [OF full] set_upt)
  from wf_levelD(3) [OF wf] have "0 < unat (associativity lvl)" by (simp add: unat_gt_0)
  with q' have "fifo_queues lvl ! s \<noteq> []" by auto
  then obtain v q where vq: "fifo_queues lvl ! s = v # q" by (cases "fifo_queues lvl ! s") auto
  with q' have "v < unat (associativity lvl)" by auto
  moreover from d vq have "v \<notin> set q" "distinct q" by simp_all
  moreover have "findVictim lvl s = Inr (v, lvl\<lparr>fifo_queues := (fifo_queues lvl)[s := q]\<rparr>)"
    using full fifo vq by (simp add: findVictim_def)
  ultimately show ?thesis using vq that by blast
qed

lemma findVictim_lru:
  assumes wf: "wf_level lg lvl" and lru: "policy lvl = LRU"
    and full: "find (\<lambda>i. \<not> valid (sets lvl ! s ! i)) [0..<unat (associativity lvl)] = None"
  obtains v where "v < unat (associativity lvl)" "findVictim lvl s = Inr (v, lvl)"
proof -
  let ?v = "fst (foldl (\<lambda>(victim, min_access) i.
      if last_access (sets lvl ! s ! i) < min_access then (i, last_access (sets lvl ! s ! i))
      else (victim, min_access)) (0, last_access (sets lvl ! s ! 0)) [1..<unat (associativity lvl)])"
  from wf_levelD(3) [OF wf] have pos: "0 < unat (associativity lvl)" by (simp add: unat_gt_0)
  have "?v \<in> insert 0 (set [1..<unat (associativity lvl)])" by (rule lru_fold_in)
  with pos have "?v < unat (associativity lvl)" by auto
  moreover have "findVictim lvl s = Inr (?v, lvl)"
    using full lru by (simp add: findVictim_def Let_def)
  ultimately show ?thesis using that by blast
qed

text \<open>What findVictim gives on a well-formed level, in one statement.\<close>

lemma findVictim_wf:
  assumes wf: "wf_level lg lvl" and s: "s < unat (num_sets lvl)"
  obtains v lvl2 where "findVictim lvl s = Inr (v, lvl2)" "v < unat (associativity lvl)"
    "lvl2 = lvl \<or> (\<exists>q. policy lvl = FIFO \<and> fifo_queues lvl ! s = v # q \<and> v \<notin> set q \<and> distinct q \<and>
        valid (sets lvl ! s ! v) \<and>
        lvl2 = lvl\<lparr>fifo_queues := (fifo_queues lvl)[s := q]\<rparr>)"
    "policy lvl = FIFO \<Longrightarrow> lvl2 = lvl \<Longrightarrow> \<not> valid (sets lvl ! s ! v)"
proof (cases "find (\<lambda>i. \<not> valid (sets lvl ! s ! i)) [0..<unat (associativity lvl)]")
  case (Some v)
  from findVictim_invalid [OF Some] that [of v lvl] show ?thesis by blast
next
  case None
  show ?thesis
  proof (cases "policy lvl")
    case FIFO
    from findVictim_fifo [OF wf s FIFO None] obtain v q where
      vq: "fifo_queues lvl ! s = v # q" "v < unat (associativity lvl)" "v \<notin> set q" "distinct q"
      "findVictim lvl s = Inr (v, lvl\<lparr>fifo_queues := (fifo_queues lvl)[s := q]\<rparr>)" .
    from None vq(2) have val: "valid (sets lvl ! s ! v)" by (auto simp: find_None_iff)
    have ne: "lvl\<lparr>fifo_queues := (fifo_queues lvl)[s := q]\<rparr> \<noteq> lvl"
    proof
      assume "lvl\<lparr>fifo_queues := (fifo_queues lvl)[s := q]\<rparr> = lvl"
      then have "fifo_queues (lvl\<lparr>fifo_queues := (fifo_queues lvl)[s := q]\<rparr>) ! s = fifo_queues lvl ! s"
        by simp
      with vq(1) s wf_levelD(5) [OF wf] show False by simp
    qed
    show ?thesis
      by (rule that [of v "lvl\<lparr>fifo_queues := (fifo_queues lvl)[s := q]\<rparr>"])
        (use vq val FIFO ne in auto)
  next
    case LRU
    from findVictim_lru [OF wf LRU None] obtain v where
      "v < unat (associativity lvl)" "findVictim lvl s = Inr (v, lvl)" .
    with that [of v lvl] LRU show ?thesis by auto
  qed
qed

subsection \<open>One access to a level\<close>

lemma getSetIndex_update [simp]:
  "getSetIndex lg (lvl\<lparr>level_stats := x\<rparr>) addr = getSetIndex lg lvl addr"
  "getSetIndex lg (lvl\<lparr>access_counter := y\<rparr>) addr = getSetIndex lg lvl addr"
  by (simp_all add: getSetIndex_def Let_def)

lemma getTag_update [simp]:
  "getTag lg (lvl\<lparr>level_stats := x\<rparr>) addr = getTag lg lvl addr"
  "getTag lg (lvl\<lparr>access_counter := y\<rparr>) addr = getTag lg lvl addr"
  by (simp_all add: getTag_def Let_def)

lemma findVictim_update:
  "findVictim (lvl\<lparr>access_counter := y, level_stats := x\<rparr>) s =
     (case findVictim lvl s of
        Inl f \<Rightarrow> Inl f
      | Inr (v, l) \<Rightarrow> Inr (v, l\<lparr>access_counter := y, level_stats := x\<rparr>))"
  by (simp add: findVictim_def Let_def split: option.splits list.splits)

lemma CacheLevel_access_hit:
  assumes s: "getSetIndex lg lvl addr = Inr s" and tg: "getTag lg lvl addr = Inr tg"
    and hit: "hit_line lg lvl addr = Some i"
  shows "CacheLevel_access lg lvl addr isWrite =
     Inr (True,
          lvl\<lparr>level_stats := (level_stats lvl)
                 \<lparr>accesses := accesses (level_stats lvl) + 1,
                  total_access_time := total_access_time (level_stats lvl) + access_latency lvl,
                  hits := hits (level_stats lvl) + 1\<rparr>,
              access_counter := access_counter lvl + 1,
              sets := (sets lvl)
                [unat s := (sets lvl ! unat s)
                   [i := (sets lvl ! unat s ! i)
                      \<lparr>last_access := access_counter lvl + 1,
                       dirty := (isWrite \<or> dirty (sets lvl ! unat s ! i))\<rparr>]]\<rparr>)"
  using hit by (simp add: CacheLevel_access_def Let_def s tg hit_line_def)

lemma CacheLevel_access_miss:
  assumes s: "getSetIndex lg lvl addr = Inr s" and tg: "getTag lg lvl addr = Inr tg"
    and miss: "hit_line lg lvl addr = None"
    and v: "findVictim lvl (unat s) = Inr (v, lvl2)"
  shows "CacheLevel_access lg lvl addr isWrite =
     Inr (False,
          lvl2\<lparr>level_stats := (level_stats lvl)
                 \<lparr>accesses := accesses (level_stats lvl) + 1,
                  total_access_time := total_access_time (level_stats lvl) + access_latency lvl,
                  misses := misses (level_stats lvl) + 1,
                  write_backs :=
                    (if valid (sets lvl2 ! unat s ! v) \<and> dirty (sets lvl2 ! unat s ! v)
                     then write_backs (level_stats lvl) + 1 else write_backs (level_stats lvl))\<rparr>,
              access_counter := access_counter lvl + 1,
              sets := (sets lvl2)
                [unat s := (sets lvl2 ! unat s)
                   [v := \<lparr>valid = True, dirty = isWrite, tag = tg,
                         last_access = access_counter lvl + 1\<rparr>]],
              fifo_queues :=
                (if policy lvl2 = FIFO
                 then (fifo_queues lvl2)[unat s := fifo_queues lvl2 ! unat s @ [v]]
                 else fifo_queues lvl2)\<rparr>)"
  using miss by (simp add: CacheLevel_access_def Let_def s tg hit_line_def findVictim_update v)

lemma wf_set_iff:
  "wf_set lvl s \<longleftrightarrow>
     length (sets lvl ! s) = unat (associativity lvl) \<and>
     (policy lvl = FIFO \<longrightarrow>
        distinct (fifo_queues lvl ! s) \<and>
        set (fifo_queues lvl ! s) = {i. i < unat (associativity lvl) \<and> valid (sets lvl ! s ! i)})"
  by (auto simp: wf_set_def)

lemma wf_level_touch:
  assumes wf: "wf_level lg lvl" and s: "s < unat (num_sets lvl)" and v: "v < unat (associativity lvl)"
    and cfg: "block_size lvl' = block_size lvl" "num_sets lvl' = num_sets lvl"
      "associativity lvl' = associativity lvl" "policy lvl' = policy lvl"
    and sets: "sets lvl' = (sets lvl)[s := (sets lvl ! s)[v := l']]" and l': "valid l'"
    and qlen: "length (fifo_queues lvl') = length (fifo_queues lvl)"
    and qother: "\<And>s'. s' \<noteq> s \<Longrightarrow> fifo_queues lvl' ! s' = fifo_queues lvl ! s'"
    and qs: "policy lvl = FIFO \<Longrightarrow>
      distinct (fifo_queues lvl' ! s) \<and>
      set (fifo_queues lvl' ! s) = insert v (set (fifo_queues lvl ! s))"
  shows "wf_level lg lvl'"
proof -
  note d = wf_levelD [OF wf]
  have "wf_set lvl' s'" if s': "s' < unat (num_sets lvl)" for s'
  proof (cases "s' = s")
    case False
    with d(6) [OF s'] show ?thesis
      by (simp add: wf_set_iff cfg sets qother)
  next
    case True
    from d(6) [OF s] have len: "length (sets lvl ! s) = unat (associativity lvl)"
      and q: "policy lvl = FIFO \<Longrightarrow> set (fifo_queues lvl ! s) =
        {i. i < unat (associativity lvl) \<and> valid (sets lvl ! s ! i)}"
      by (simp_all add: wf_set_iff)
    have st: "sets lvl' ! s = (sets lvl ! s)[v := l']"
      using s d(4) by (simp add: sets)
    have val: "{i. i < unat (associativity lvl) \<and> valid ((sets lvl ! s)[v := l'] ! i)} =
        insert v {i. i < unat (associativity lvl) \<and> valid (sets lvl ! s ! i)}"
      using v len l' by (auto simp: nth_list_update)
    show ?thesis
      unfolding True wf_set_iff cfg st using len qs q val by auto
  qed
  with d show ?thesis
    by (simp add: wf_level_def cfg sets qlen list_all_iff)
qed

lemma CacheLevel_access_wf:
  assumes wf: "wf_level lg lvl"
  shows "\<exists>lvl'. CacheLevel_access lg lvl addr isWrite = Inr (holds lg lvl addr, lvl') \<and>
      wf_level lg lvl' \<and> access_latency lvl' = access_latency lvl"
proof -
  note d = wf_levelD [OF wf]
  from getSetIndex_wf [OF wf, of addr] obtain s where
    s: "getSetIndex lg lvl addr = Inr s" and sl: "unat s < unat (num_sets lvl)" by blast
  from getTag_wf [OF wf, of addr] obtain tg where tg: "getTag lg lvl addr = Inr tg" ..
  show ?thesis
  proof (cases "hit_line lg lvl addr")
    case (Some i)
    then have f: "find (\<lambda>i. valid (sets lvl ! unat s ! i) \<and> tag (sets lvl ! unat s ! i) = tg)
       [0..<unat (associativity lvl)] = Some i"
      by (simp add: hit_line_def s tg)
    from find_Some_first [OF f] have i: "i < unat (associativity lvl)"
      and vi: "valid (sets lvl ! unat s ! i)" by simp_all
    note acc = CacheLevel_access_hit [OF s tg Some, of isWrite]
    have q: "policy lvl = FIFO \<Longrightarrow> i \<in> set (fifo_queues lvl ! unat s) \<and>
        distinct (fifo_queues lvl ! unat s)"
      using d(6) [OF sl] i vi by (simp add: wf_set_iff)
    define lvl' where "lvl' = snd (projr (CacheLevel_access lg lvl addr isWrite))"
    define line where "line = (sets lvl ! unat s ! i)
                      \<lparr>last_access := access_counter lvl + 1,
                       dirty := (isWrite \<or> dirty (sets lvl ! unat s ! i))\<rparr>"
    have f1: "block_size lvl' = block_size lvl" "num_sets lvl' = num_sets lvl"
      "associativity lvl' = associativity lvl" "policy lvl' = policy lvl"
      "access_latency lvl' = access_latency lvl" "fifo_queues lvl' = fifo_queues lvl"
      unfolding lvl'_def acc by simp_all
    have f2: "sets lvl' = (sets lvl)[unat s := (sets lvl ! unat s)[i := line]]"
      unfolding lvl'_def acc line_def by simp
    have f6: "distinct (fifo_queues lvl' ! unat s) \<and>
        set (fifo_queues lvl' ! unat s) = insert i (set (fifo_queues lvl ! unat s))"
      if fifo: "policy lvl = FIFO"
      unfolding f1 using q [OF fifo] by (simp add: insert_absorb)
    have "valid line" using vi by (simp add: line_def)
    from wf_level_touch [OF wf sl i f1(1-4) f2 this _ _ f6]
    have "wf_level lg lvl'" by (simp add: f1)
    moreover have "CacheLevel_access lg lvl addr isWrite = Inr (True, lvl')"
      unfolding lvl'_def acc by simp
    ultimately have "\<exists>lvl'. CacheLevel_access lg lvl addr isWrite = Inr (True, lvl') \<and>
      wf_level lg lvl' \<and> access_latency lvl' = access_latency lvl" using f1(5) by blast
    with Some show ?thesis by (simp add: holds_def)
  next
    case None
    from findVictim_wf [OF wf sl] obtain v lvl2 where
      fv: "findVictim lvl (unat s) = Inr (v, lvl2)" and v: "v < unat (associativity lvl)"
      and l2: "lvl2 = lvl \<or> (\<exists>q. policy lvl = FIFO \<and> fifo_queues lvl ! unat s = v # q \<and>
        v \<notin> set q \<and> distinct q \<and> valid (sets lvl ! unat s ! v) \<and>
        lvl2 = lvl\<lparr>fifo_queues := (fifo_queues lvl)[unat s := q]\<rparr>)"
      and inv: "policy lvl = FIFO \<Longrightarrow> lvl2 = lvl \<Longrightarrow> \<not> valid (sets lvl ! unat s ! v)"
      by blast
    note acc = CacheLevel_access_miss [OF s tg None fv, of isWrite]
    from d(6) [OF sl] have q: "policy lvl = FIFO \<Longrightarrow> distinct (fifo_queues lvl ! unat s) \<and>
        set (fifo_queues lvl ! unat s) =
          {i. i < unat (associativity lvl) \<and> valid (sets lvl ! unat s ! i)}"
      by (simp add: wf_set_iff)
    have sq: "unat s < length (fifo_queues lvl)" using sl d(5) by simp
    define lvl' where "lvl' = snd (projr (CacheLevel_access lg lvl addr isWrite))"
    define line where "line = \<lparr>valid = True, dirty = isWrite, tag = tg,
                         last_access = access_counter lvl + 1\<rparr>"
    have same: "block_size lvl2 = block_size lvl" "num_sets lvl2 = num_sets lvl"
      "associativity lvl2 = associativity lvl" "policy lvl2 = policy lvl" "sets lvl2 = sets lvl"
      "access_latency lvl2 = access_latency lvl"
      "length (fifo_queues lvl2) = length (fifo_queues lvl)"
      "\<And>s'. s' \<noteq> unat s \<Longrightarrow> fifo_queues lvl2 ! s' = fifo_queues lvl ! s'"
      using l2 by auto
    have q2: "distinct (fifo_queues lvl2 ! unat s @ [v]) \<and>
        set (fifo_queues lvl2 ! unat s @ [v]) = insert v (set (fifo_queues lvl ! unat s))"
      if fifo: "policy lvl = FIFO"
    proof (cases "lvl2 = lvl")
      case True
      with inv [OF fifo] q [OF fifo] v show ?thesis by auto
    next
      case False
      with l2 obtain q0 where "fifo_queues lvl ! unat s = v # q0" "v \<notin> set q0" "distinct q0"
        "lvl2 = lvl\<lparr>fifo_queues := (fifo_queues lvl)[unat s := q0]\<rparr>" by blast
      with sq show ?thesis by auto
    qed
    have f1: "block_size lvl' = block_size lvl" "num_sets lvl' = num_sets lvl"
      "associativity lvl' = associativity lvl" "policy lvl' = policy lvl"
      "access_latency lvl' = access_latency lvl"
      unfolding lvl'_def acc by (simp_all add: same)
    have f2: "sets lvl' = (sets lvl)[unat s := (sets lvl ! unat s)[v := line]]"
      unfolding lvl'_def acc line_def by (simp add: same)
    have f3: "fifo_queues lvl' = (if policy lvl = FIFO
                 then (fifo_queues lvl2)[unat s := fifo_queues lvl2 ! unat s @ [v]]
                 else fifo_queues lvl2)"
      unfolding lvl'_def acc by (simp add: same)
    have f4: "length (fifo_queues lvl') = length (fifo_queues lvl)"
      unfolding f3 by (simp add: same)
    have f5: "fifo_queues lvl' ! s' = fifo_queues lvl ! s'" if "s' \<noteq> unat s" for s'
      unfolding f3 using that by (simp add: same)
    have f6: "distinct (fifo_queues lvl' ! unat s) \<and>
        set (fifo_queues lvl' ! unat s) = insert v (set (fifo_queues lvl ! unat s))"
      if fifo: "policy lvl = FIFO"
      unfolding f3 using q2 [OF fifo] fifo sq by (simp add: same)
    have "valid line" by (simp add: line_def)
    from wf_level_touch [OF wf sl v f1(1-4) f2 this f4 f5 f6]
    have "wf_level lg lvl'" by blast
    moreover have "CacheLevel_access lg lvl addr isWrite = Inr (False, lvl')"
      unfolding lvl'_def acc by simp
    ultimately show ?thesis using f1(5) None by (simp add: holds_def)
  qed
qed

lemma wf_addLevel:
  assumes "addLevel room sim nm sz bs assoc pol lat = Inr sim'" and "sz div bs div assoc \<noteq> 0"
    and "lg bs < 64" and "lg bs + lg (sz div bs div assoc) < 64"
    and "list_all (wf_level lg) (levels sim)"
  shows "list_all (wf_level lg) (levels sim')"
proof -
  from assms(1) obtain lvl where new: "CacheLevel_new room nm sz bs assoc pol lat = Inr lvl"
    and sim': "sim' = sim\<lparr>levels := levels sim @ [lvl], initialized := True\<rparr>"
    by (auto simp: addLevel_def split: sum.splits)
  note n = CacheLevel_new_Inr [OF new]
  have f: "num_sets lvl = sz div bs div assoc" "block_size lvl = bs"
    unfolding n(3) by simp_all
  from wf_CacheLevel_new [OF new, of lg] assms(2-5) show ?thesis by (simp add: sim' f)
qed

subsection \<open>Construction\<close>

lemma truncated_geometry:
  fixes S B A :: nat
  assumes "0 < B"
  shows "S div B div A * A * B \<le> S"
    and "S div B div A * A * B = S \<longleftrightarrow> S mod B = 0 \<and> (S div B) mod A = 0"
proof -
  have m1: "S div B * B + S mod B = S" by simp
  have m2: "S div B div A * A + (S div B) mod A = S div B" by simp
  have "(S div B div A * A + (S div B) mod A) * B + S mod B = S"
    unfolding m2 by (rule m1)
  then have e: "S div B div A * A * B + ((S div B) mod A * B + S mod B) = S"
    by (simp only: add_mult_distrib add.assoc)
  from e show "S div B div A * A * B \<le> S" by linarith
  from e have "S div B div A * A * B = S \<longleftrightarrow> (S div B) mod A * B + S mod B = 0"
    by linarith
  with assms show "S div B div A * A * B = S \<longleftrightarrow> S mod B = 0 \<and> (S div B) mod A = 0"
    by auto
qed

lemma geometry_exact_unat:
  "geometry_exact sz blockSize assoc \<longleftrightarrow>
     blockSize \<noteq> 0 \<and> assoc \<noteq> 0 \<and> unat sz mod unat blockSize = 0 \<and>
     (unat sz div unat blockSize) mod unat assoc = 0 \<and> sz div blockSize div assoc \<noteq> 0"
proof -
  have 1: "sz mod blockSize = 0 \<longleftrightarrow> unat sz mod unat blockSize = 0"
    by (simp add: unat_eq_0 [symmetric] unat_mod)
  have 2: "(sz div blockSize) mod assoc = 0 \<longleftrightarrow> (unat sz div unat blockSize) mod unat assoc = 0"
    by (simp add: unat_eq_0 [symmetric] unat_mod unat_div)
  show ?thesis unfolding geometry_exact_def 1 2 ..
qed

text \<open>
  Claim C4, as amended. The constructor and \<^verbatim>\<open>addLevel\<close> check nothing. For every
  configuration with a non-zero block size and associativity whose vectors the host can
  allocate, whether or not the geometry divides evenly, the level is built and appended
  without an error, with \<^verbatim>\<open>num_lines = size / block_size\<close> and
  \<^verbatim>\<open>num_sets = num_lines / associativity\<close> in truncating integer division and \<^verbatim>\<open>num_sets\<close>
  sets of \<^verbatim>\<open>associativity\<close> invalid lines with empty queues. The lines of the level
  cover at most \<^verbatim>\<open>size\<close> bytes; they cover \<^verbatim>\<open>size\<close> bytes in at least one set exactly when
  the geometry divides evenly, and otherwise the remainder is dropped in silence.
\<close>

theorem CacheLevel_new_truncates:
  assumes "blockSize \<noteq> 0" and "assoc \<noteq> 0"
    and "sz div blockSize div assoc = 0 \<or> room (sz div blockSize div assoc) assoc"
  shows "\<exists>lvl. CacheLevel_new room nm sz blockSize assoc pol lat = Inr lvl \<and>
     addLevel room sim nm sz blockSize assoc pol lat =
       Inr (sim\<lparr>levels := levels sim @ [lvl], initialized := True\<rparr>) \<and>
     num_lines lvl = sz div blockSize \<and>
     num_sets lvl = sz div blockSize div assoc \<and>
     sets lvl = replicate (unat (num_sets lvl)) (replicate (unat assoc) CacheLine_new) \<and>
     fifo_queues lvl = replicate (unat (num_sets lvl)) [] \<and>
     unat (num_sets lvl) * unat assoc * unat blockSize \<le> unat sz \<and>
     (geometry_exact sz blockSize assoc \<longleftrightarrow>
        num_sets lvl \<noteq> 0 \<and> unat (num_sets lvl) * unat assoc * unat blockSize = unat sz)"
proof -
  define lvl where "lvl = \<lparr>name = nm, size_lvl = sz, block_size = blockSize,
      associativity = assoc, num_sets = sz div blockSize div assoc, num_lines = sz div blockSize,
      sets = replicate (unat (sz div blockSize div assoc)) (replicate (unat assoc) CacheLine_new),
      fifo_queues = replicate (unat (sz div blockSize div assoc)) [],
      policy = pol, level_stats = CacheStats_new, access_counter = 0, access_latency = lat\<rparr>"
  have new: "CacheLevel_new room nm sz blockSize assoc pol lat = Inr lvl"
    using assms by (auto simp: CacheLevel_new_def Let_def lvl_def)
  have add: "addLevel room sim nm sz blockSize assoc pol lat =
       Inr (sim\<lparr>levels := levels sim @ [lvl], initialized := True\<rparr>)"
    by (simp add: addLevel_def new)
  have f: "num_lines lvl = sz div blockSize" "num_sets lvl = sz div blockSize div assoc"
    "sets lvl = replicate (unat (num_sets lvl)) (replicate (unat assoc) CacheLine_new)"
    "fifo_queues lvl = replicate (unat (num_sets lvl)) []"
    by (simp_all add: lvl_def)
  have B: "0 < unat blockSize" using assms(1) by (simp add: unat_gt_0)
  have u: "unat (num_sets lvl) = unat sz div unat blockSize div unat assoc"
    by (simp add: f(2) unat_div)
  note t = truncated_geometry [OF B, of "unat sz" "unat assoc"]
  have le: "unat (num_sets lvl) * unat assoc * unat blockSize \<le> unat sz"
    unfolding u by (rule t(1))
  have ex: "geometry_exact sz blockSize assoc \<longleftrightarrow>
        num_sets lvl \<noteq> 0 \<and> unat (num_sets lvl) * unat assoc * unat blockSize = unat sz"
    unfolding geometry_exact_unat u t(2) using assms(1,2) by (auto simp: f(2))
  from new add f le ex show ?thesis by blast
qed

theorem CacheLevel_new_truncates_witness:
  "(16::size_t) \<noteq> 0 \<and> (4::size_t) \<noteq> 0 \<and> small_host (100 div 16 div 4) 4 \<and>
   \<not> geometry_exact 100 16 4 \<and>
   (\<exists>lvl. CacheLevel_new small_host ''L1'' 100 16 4 LRU 1 = Inr lvl \<and>
      addLevel small_host CacheSimulator_new ''L1'' 100 16 4 LRU 1 =
        Inr (CacheSimulator_new\<lparr>levels := levels CacheSimulator_new @ [lvl], initialized := True\<rparr>) \<and>
      num_lines lvl = 6 \<and> num_sets lvl = 1 \<and> sets lvl = [replicate 4 CacheLine_new] \<and>
      fifo_queues lvl = [[]] \<and>
      unat (num_sets lvl) * unat (4::size_t) * unat (16::size_t) < unat (100::size_t))"
proof -
  have a: "(16::size_t) \<noteq> 0" and b: "(4::size_t) \<noteq> 0" by simp_all
  have r: "small_host (100 div 16 div 4) 4" by code_simp
  have g: "\<not> geometry_exact 100 16 4" by code_simp
  have c: "(100::size_t) div 16 = 6" "(6::size_t) div 4 = 1" "unat (4::size_t) = 4"
    "unat (16::size_t) = 16" "unat (100::size_t) = 100"
    by simp_all
  have r': "(100::size_t) div 16 div 4 = 0 \<or> small_host (100 div 16 div 4) 4"
    by (rule disjI2) (rule r)
  from CacheLevel_new_truncates [where room = small_host and sz = 100 and blockSize = 16
      and assoc = 4 and nm = "''L1''" and pol = LRU and lat = 1 and sim = CacheSimulator_new,
      OF a b r']
  obtain lvl where
    "CacheLevel_new small_host ''L1'' 100 16 4 LRU 1 = Inr lvl"
    "addLevel small_host CacheSimulator_new ''L1'' 100 16 4 LRU 1 =
        Inr (CacheSimulator_new\<lparr>levels := levels CacheSimulator_new @ [lvl], initialized := True\<rparr>)"
    "num_lines lvl = 6" "num_sets lvl = 1" "sets lvl = [replicate 4 CacheLine_new]"
    "fifo_queues lvl = [[]]"
    "unat (num_sets lvl) * unat (4::size_t) * unat (16::size_t) \<le> unat (100::size_t)"
    by (auto simp: c)
  moreover from this have "unat (num_sets lvl) * unat (4::size_t) * unat (16::size_t) < unat (100::size_t)"
    by (simp add: c)
  ultimately show ?thesis using a b r g by blast
qed

text \<open>
  Claim C4 as it is worded fails: 100 bytes in blocks of 16 bytes, 4-way, does not
  divide evenly (100 / 16 leaves a remainder), and on a host with room for it the level
  is built all the same, with 6 lines in 1 set.
\<close>

theorem uneven_geometry_counterexample:
  "\<not> geometry_exact 100 16 4 \<and>
   CacheLevel_new small_host ''L1'' 100 16 4 LRU 1 =
     Inr \<lparr>name = ''L1'', size_lvl = 100, block_size = 16, associativity = 4, num_sets = 1,
          num_lines = 6, sets = [replicate 4 CacheLine_new], fifo_queues = [[]], policy = LRU,
          level_stats = CacheStats_new, access_counter = 0, access_latency = 1\<rparr>"
proof -
  have c: "(100::size_t) div 16 = 6" "(6::size_t) div 4 = 1" "unat (4::size_t) = 4"
    "(100::size_t) mod 16 = 4"
    by simp_all
  show ?thesis
    by (simp add: geometry_exact_def CacheLevel_new_def small_host_def Let_def c)
qed

subsection \<open>The cost of an access to the hierarchy\<close>

lemma access_loop_wf:
  assumes "list_all (wf_level lg) ls"
  shows "\<exists>ls'. access_loop lg ls addr isWrite t =
      Inr (list_ex (\<lambda>l. holds lg l addr) ls,
           t + sum_list (map access_latency (probed lg ls addr)), ls') \<and>
      list_all (wf_level lg) ls'"
  using assms
proof (induction ls arbitrary: t)
  case Nil
  show ?case by simp
next
  case (Cons l ls)
  from Cons.prems have wf: "wf_level lg l" and rest: "list_all (wf_level lg) ls" by simp_all
  from CacheLevel_access_wf [OF wf, of addr isWrite] obtain l' where
    acc: "CacheLevel_access lg l addr isWrite = Inr (holds lg l addr, l')" and wf': "wf_level lg l'"
    by blast
  show ?case
  proof (cases "holds lg l addr")
    case True
    with acc wf' rest show ?thesis by simp
  next
    case False
    from Cons.IH [OF rest, of "t + access_latency l"] obtain ls' where
      "access_loop lg ls addr isWrite (t + access_latency l) =
        Inr (list_ex (\<lambda>l. holds lg l addr) ls,
             t + access_latency l + sum_list (map access_latency (probed lg ls addr)), ls')"
      and "list_all (wf_level lg) ls'" by blast
    with acc wf' False show ?thesis by (simp add: add.assoc)
  qed
qed

text \<open>
  Claim C3. Whatever logarithm \<open>lg\<close> the target computes, an access to a hierarchy of
  levels that are well-formed for it returns; the cycles it
  reports are added to the simulator's \<^verbatim>\<open>total_access_time\<close> and are the sum of the
  latencies of the levels probed, which are those up to and including the first level
  that holds the address (the level whose \<^verbatim>\<open>access\<close> returns \<^verbatim>\<open>true\<close>), plus
  \<^verbatim>\<open>memory_latency\<close> when no level holds it. The levels stay well-formed. With the
  latencies 1 and 10 and a memory latency of 100, an address that L1 does not hold
  costs 11 cycles when L2 holds it and 111 when L2 does not. (Sums are 64-bit sums.)
\<close>

theorem hierarchy_access_cost:
  assumes "list_all (wf_level lg) (levels sim)"
  shows "\<exists>cost sim'.
     CacheSimulator_access lg sim addr isWrite = Inr (cost, sim') \<and>
     list_all (wf_level lg) (levels sim') \<and>
     sim_total_access_time sim' = sim_total_access_time sim + cost \<and>
     cost = sum_list (map access_latency (probed lg (levels sim) addr)) +
            (if list_ex (\<lambda>l. holds lg l addr) (levels sim) then 0 else memory_latency sim) \<and>
     (\<forall>l1 l2. levels sim = [l1, l2] \<and> access_latency l1 = 1 \<and> access_latency l2 = 10 \<and>
        memory_latency sim = 100 \<and> \<not> holds lg l1 addr \<longrightarrow>
        cost = (if holds lg l2 addr then 11 else 111))"
proof -
  from access_loop_wf [OF assms, of addr isWrite 0] obtain ls' where
    loop: "access_loop lg (levels sim) addr isWrite 0 =
      Inr (list_ex (\<lambda>l. holds lg l addr) (levels sim),
           0 + sum_list (map access_latency (probed lg (levels sim) addr)), ls')"
    and wf': "list_all (wf_level lg) ls'"
    by blast
  define cost where "cost = sum_list (map access_latency (probed lg (levels sim) addr)) +
            (if list_ex (\<lambda>l. holds lg l addr) (levels sim) then 0 else memory_latency sim)"
  have acc: "CacheSimulator_access lg sim addr isWrite =
      Inr (cost, sim\<lparr>levels := ls', sim_total_access_time := sim_total_access_time sim + cost\<rparr>)"
    by (simp add: CacheSimulator_access_def loop cost_def Let_def)
  have two: "cost = (if holds lg l2 addr then 11 else 111)"
    if "levels sim = [l1, l2]" "access_latency l1 = 1" "access_latency l2 = 10"
      "memory_latency sim = 100" "\<not> holds lg l1 addr" for l1 l2
    using that by (simp add: cost_def)
  from acc two wf' show ?thesis
    unfolding cost_def [symmetric] by (intro exI conjI) (simp, simp, simp, rule refl, blast)
qed

theorem hierarchy_access_cost_witness:
  "list_all (wf_level exact_log2) (levels two_level) \<and>
   map_sum id fst (CacheSimulator_access exact_log2 two_level 0 False) = Inr 111 \<and>
   list_all (wf_level exact_log2) (levels two_level_warm) \<and>
   map_sum id fst (CacheSimulator_access exact_log2 two_level_warm 0 False) = Inr 11"
proof -
  have wf: "list_all (wf_level exact_log2) (levels two_level)" by code_simp
  have lv: "levels two_level = [levels two_level ! 0, levels two_level ! 1]" by code_simp
  have lat: "access_latency (levels two_level ! 0) = 1" "access_latency (levels two_level ! 1) = 10"
    "memory_latency two_level = 100" by code_simp+
  have h: "\<not> holds exact_log2 (levels two_level ! 0) 0" "\<not> holds exact_log2 (levels two_level ! 1) 0" by code_simp+
  from hierarchy_access_cost [OF wf, of 0 False] obtain cost sim' where
    acc: "CacheSimulator_access exact_log2 two_level 0 False = Inr (cost, sim')"
    and c: "\<forall>l1 l2. levels two_level = [l1, l2] \<and> access_latency l1 = 1 \<and> access_latency l2 = 10 \<and>
        memory_latency two_level = 100 \<and> \<not> holds exact_log2 l1 0 \<longrightarrow>
        cost = (if holds exact_log2 l2 0 then 11 else 111)"
    by blast
  from c lv lat h have "cost = 111" by metis
  with acc have 1: "map_sum id fst (CacheSimulator_access exact_log2 two_level 0 False) = Inr 111" by simp
  have wf': "list_all (wf_level exact_log2) (levels two_level_warm)" by code_simp
  have lv': "levels two_level_warm = [levels two_level_warm ! 0, levels two_level_warm ! 1]"
    by code_simp
  have lat': "access_latency (levels two_level_warm ! 0) = 1"
    "access_latency (levels two_level_warm ! 1) = 10"
    "memory_latency two_level_warm = 100" by code_simp+
  have h': "\<not> holds exact_log2 (levels two_level_warm ! 0) 0" "holds exact_log2 (levels two_level_warm ! 1) 0"
    by code_simp+
  from hierarchy_access_cost [OF wf', of 0 False] obtain cost' sim'' where
    acc': "CacheSimulator_access exact_log2 two_level_warm 0 False = Inr (cost', sim'')"
    and c': "\<forall>l1 l2. levels two_level_warm = [l1, l2] \<and> access_latency l1 = 1 \<and>
        access_latency l2 = 10 \<and> memory_latency two_level_warm = 100 \<and> \<not> holds exact_log2 l1 0 \<longrightarrow>
        cost' = (if holds exact_log2 l2 0 then 11 else 111)"
    by blast
  from c' lv' lat' h' have "cost' = 11" by metis
  with acc' have 2: "map_sum id fst (CacheSimulator_access exact_log2 two_level_warm 0 False) = Inr 11"
    by simp
  from wf 1 wf' 2 show ?thesis by simp
qed

subsection \<open>Write-backs and dirty bits\<close>

text \<open>
  Claim C6. Whatever logarithm \<open>lg\<close> the target computes, an access to a level that is
  well-formed for it returns. On a miss, with \<open>v\<close> the victim
  that \<^verbatim>\<open>findVictim\<close> picks, \<^verbatim>\<open>write_backs\<close> goes up by one if the line at \<open>v\<close> was valid
  and dirty and stays as it was otherwise, and the line installed at \<open>v\<close> is dirty if
  and only if the access is a write. On a hit \<^verbatim>\<open>write_backs\<close> stays as it was and the
  hit line is dirty afterwards if and only if it was dirty or the access is a write.
  No other line changes.
\<close>

theorem write_back_accounting:
  assumes wf: "wf_level lg lvl"
  shows "\<exists>s tg hit lvl'.
     getSetIndex lg lvl addr = Inr s \<and> getTag lg lvl addr = Inr tg \<and>
     CacheLevel_access lg lvl addr isWrite = Inr (hit, lvl') \<and>
     (case hit_line lg lvl addr of
        Some i \<Rightarrow>
          hit \<and> write_backs (level_stats lvl') = write_backs (level_stats lvl) \<and>
          dirty (sets lvl' ! unat s ! i) = (isWrite \<or> dirty (sets lvl ! unat s ! i)) \<and>
          sets lvl' = (sets lvl)
            [unat s := (sets lvl ! unat s)
               [i := (sets lvl ! unat s ! i)
                  \<lparr>last_access := access_counter lvl + 1,
                   dirty := (isWrite \<or> dirty (sets lvl ! unat s ! i))\<rparr>]]
      | None \<Rightarrow>
          \<not> hit \<and>
          (\<exists>v lvl2. findVictim lvl (unat s) = Inr (v, lvl2) \<and>
             write_backs (level_stats lvl') =
               (if valid (sets lvl ! unat s ! v) \<and> dirty (sets lvl ! unat s ! v)
                then write_backs (level_stats lvl) + 1 else write_backs (level_stats lvl)) \<and>
             (write_backs (level_stats lvl') = write_backs (level_stats lvl) + 1 \<longleftrightarrow>
                valid (sets lvl ! unat s ! v) \<and> dirty (sets lvl ! unat s ! v)) \<and>
             dirty (sets lvl' ! unat s ! v) = isWrite \<and>
             sets lvl' = (sets lvl)
               [unat s := (sets lvl ! unat s)
                  [v := \<lparr>valid = True, dirty = isWrite, tag = tg,
                        last_access = access_counter lvl + 1\<rparr>]]))"
proof -
  note d = wf_levelD [OF wf]
  from getSetIndex_wf [OF wf, of addr] obtain s where
    s: "getSetIndex lg lvl addr = Inr s" and sl: "unat s < unat (num_sets lvl)" by blast
  from getTag_wf [OF wf, of addr] obtain tg where tg: "getTag lg lvl addr = Inr tg" ..
  have len: "unat s < length (sets lvl)" "length (sets lvl ! unat s) = unat (associativity lvl)"
    using sl d(4) d(6) [OF sl] by (simp_all add: wf_set_iff)
  show ?thesis
  proof (cases "hit_line lg lvl addr")
    case (Some i)
    then have "find (\<lambda>i. valid (sets lvl ! unat s ! i) \<and> tag (sets lvl ! unat s ! i) = tg)
       [0..<unat (associativity lvl)] = Some i"
      by (simp add: hit_line_def s tg)
    from find_Some_first [OF this] have i: "i < unat (associativity lvl)" by simp
    show ?thesis
      unfolding CacheLevel_access_hit [OF s tg Some] Some using s tg len i by (simp; blast)
  next
    case None
    from findVictim_wf [OF wf sl] obtain v lvl2 where
      fv: "findVictim lvl (unat s) = Inr (v, lvl2)" and v: "v < unat (associativity lvl)"
      and l2: "lvl2 = lvl \<or> (\<exists>q. policy lvl = FIFO \<and> fifo_queues lvl ! unat s = v # q \<and>
        v \<notin> set q \<and> distinct q \<and> valid (sets lvl ! unat s ! v) \<and>
        lvl2 = lvl\<lparr>fifo_queues := (fifo_queues lvl)[unat s := q]\<rparr>)"
      by blast
    from l2 have same: "sets lvl2 = sets lvl" by auto
    have inc: "write_backs (level_stats lvl) + 1 \<noteq> write_backs (level_stats lvl)" by simp
    show ?thesis
      unfolding CacheLevel_access_miss [OF s tg None fv] None using s tg len v fv inc
      by (simp add: same; blast)
  qed
qed

theorem write_back_accounting_witness:
  "wf_level exact_log2 written_level \<and>
   map_sum id (\<lambda>r. (fst r, write_backs (level_stats (snd r))))
     (CacheLevel_access exact_log2 written_level 16 False) = Inr (False, 1) \<and>
   map_sum id (\<lambda>r. (fst r, write_backs (level_stats (snd r))))
     (CacheLevel_access exact_log2 written_level 0 False) = Inr (True, 0)"
proof -
  have wf: "wf_level exact_log2 written_level" by code_simp
  have s: "getSetIndex exact_log2 written_level 16 = Inr 0" "getSetIndex exact_log2 written_level 0 = Inr 0" by code_simp+
  have h: "hit_line exact_log2 written_level 16 = None" "hit_line exact_log2 written_level 0 = Some 0" by code_simp+
  have v: "findVictim written_level 0 = Inr (0, written_level)" by code_simp
  have l: "valid (sets written_level ! 0 ! 0)" "dirty (sets written_level ! 0 ! 0)"
    "write_backs (level_stats written_level) = 0" by code_simp+
  from write_back_accounting [OF wf, of 16 False] s(1) h(1) v l
  have 1: "map_sum id (\<lambda>r. (fst r, write_backs (level_stats (snd r))))
     (CacheLevel_access exact_log2 written_level 16 False) = Inr (False, 1)"
    by auto
  from write_back_accounting [OF wf, of 0 False] s(2) h(2) l
  have 2: "map_sum id (\<lambda>r. (fst r, write_backs (level_stats (snd r))))
     (CacheLevel_access exact_log2 written_level 0 False) = Inr (True, 0)"
    by auto
  from wf 1 2 show ?thesis by simp
qed

subsection \<open>LRU and FIFO on a two-way set\<close>

lemma upt_2: "[0..<2] = [0, Suc 0]"
  by (simp add: upt_rec)

text \<open>One access to a two-way set, seen at that set.\<close>

lemma two_way_access:
  assumes a: "associativity l = 2"
    and s: "getSetIndex lg l addr = Inr s" and tg: "getTag lg l addr = Inr tg"
    and ls: "unat s < length (sets l)" and lq: "unat s < length (fifo_queues l)"
    and st: "sets l ! unat s = [x0, x1]" and q: "fifo_queues l ! unat s = q"
    and c: "access_counter l = c"
    and nonempty: "policy l = FIFO \<Longrightarrow> valid x0 \<Longrightarrow> valid x1 \<Longrightarrow> tag x0 \<noteq> tg \<Longrightarrow>
      tag x1 \<noteq> tg \<Longrightarrow> q \<noteq> []"
  shows "\<exists>l'. CacheLevel_access lg l addr isWrite =
        Inr (valid x0 \<and> tag x0 = tg \<or> valid x1 \<and> tag x1 = tg, l') \<and>
      block_size l' = block_size l \<and> num_sets l' = num_sets l \<and>
      associativity l' = associativity l \<and> policy l' = policy l \<and>
      length (sets l') = length (sets l) \<and> length (fifo_queues l') = length (fifo_queues l) \<and>
      access_counter l' = c + 1 \<and>
      sets l' ! unat s =
        (if valid x0 \<and> tag x0 = tg then [x0\<lparr>last_access := c + 1, dirty := (isWrite \<or> dirty x0)\<rparr>, x1]
         else if valid x1 \<and> tag x1 = tg then [x0, x1\<lparr>last_access := c + 1, dirty := (isWrite \<or> dirty x1)\<rparr>]
         else if \<not> valid x0 then [\<lparr>valid = True, dirty = isWrite, tag = tg, last_access = c + 1\<rparr>, x1]
         else if \<not> valid x1 then [x0, \<lparr>valid = True, dirty = isWrite, tag = tg, last_access = c + 1\<rparr>]
         else if policy l = FIFO then [x0, x1][hd q := \<lparr>valid = True, dirty = isWrite, tag = tg, last_access = c + 1\<rparr>]
         else if last_access x1 < last_access x0
           then [x0, \<lparr>valid = True, dirty = isWrite, tag = tg, last_access = c + 1\<rparr>]
           else [\<lparr>valid = True, dirty = isWrite, tag = tg, last_access = c + 1\<rparr>, x1]) \<and>
      fifo_queues l' ! unat s =
        (if valid x0 \<and> tag x0 = tg \<or> valid x1 \<and> tag x1 = tg \<or> policy l \<noteq> FIFO then q
         else if \<not> valid x0 then q @ [0]
         else if \<not> valid x1 then q @ [1]
         else tl q @ [hd q])"
proof (cases "valid x0 \<and> tag x0 = tg \<or> valid x1 \<and> tag x1 = tg")
  case True
  then obtain i where hit: "hit_line lg l addr = Some i"
    and i: "i = (if valid x0 \<and> tag x0 = tg then 0 else 1)"
    by (auto simp: hit_line_def s tg a upt_2 st)
  show ?thesis
    unfolding CacheLevel_access_hit [OF s tg hit] using True ls lq
    by (auto simp: i st q c)
next
  case False
  then have miss: "hit_line lg l addr = None"
    by (auto simp: hit_line_def s tg a upt_2 st)
  show ?thesis
  proof (cases "valid x0 \<and> valid x1 \<and> policy l = FIFO")
    case True
    with nonempty False obtain v q' where vq: "q = v # q'" by (cases q) auto
    have fv: "findVictim l (unat s) = Inr (v, l\<lparr>fifo_queues := (fifo_queues l)[unat s := q']\<rparr>)"
      using True by (simp add: findVictim_def a upt_2 st q vq)
    show ?thesis
      unfolding CacheLevel_access_miss [OF s tg miss fv] using True False ls lq
      by (simp add: st q c vq)
  next
    case nf: False
    define v where "v = (if \<not> valid x0 then 0 else if \<not> valid x1 then 1
      else if last_access x1 < last_access x0 then 1 else (0::nat))"
    have fv: "findVictim l (unat s) = Inr (v, l)"
      using nf by (cases "policy l") (auto simp: findVictim_def a upt_2 st v_def upt_rec)
    show ?thesis
      unfolding CacheLevel_access_miss [OF s tg miss fv] using nf False ls lq
      by (auto simp: st q c v_def)
  qed
qed

lemma two_way_fill_first:
  assumes "associativity l = 2" "getSetIndex lg l addr = Inr s" "getTag lg l addr = Inr tg"
    "unat s < length (sets l)" "unat s < length (fifo_queues l)"
    "sets l ! unat s = [x0, x1]" "fifo_queues l ! unat s = q" "access_counter l = c"
    and "\<not> valid x0" "\<not> valid x1"
  shows "\<exists>l'. CacheLevel_access lg l addr isWrite = Inr (False, l') \<and> same_shape l l' \<and>
      access_counter l' = c + 1 \<and>
      sets l' ! unat s = [\<lparr>valid = True, dirty = isWrite, tag = tg, last_access = c + 1\<rparr>, x1] \<and>
      fifo_queues l' ! unat s = (if policy l = FIFO then q @ [0] else q)"
  using assms(9,10) two_way_access [OF assms(1-8), of isWrite]
  by (cases "policy l") (simp_all add: same_shape_def)

lemma two_way_fill_second:
  assumes "associativity l = 2" "getSetIndex lg l addr = Inr s" "getTag lg l addr = Inr tg"
    "unat s < length (sets l)" "unat s < length (fifo_queues l)"
    "sets l ! unat s = [x0, x1]" "fifo_queues l ! unat s = q" "access_counter l = c"
    and "valid x0" "tag x0 \<noteq> tg" "\<not> valid x1"
  shows "\<exists>l'. CacheLevel_access lg l addr isWrite = Inr (False, l') \<and> same_shape l l' \<and>
      access_counter l' = c + 1 \<and>
      sets l' ! unat s = [x0, \<lparr>valid = True, dirty = isWrite, tag = tg, last_access = c + 1\<rparr>] \<and>
      fifo_queues l' ! unat s = (if policy l = FIFO then q @ [1] else q)"
  using assms(9,10,11) two_way_access [OF assms(1-8), of isWrite]
  by (cases "policy l") (simp_all add: same_shape_def)

lemma two_way_hit_first:
  assumes "associativity l = 2" "getSetIndex lg l addr = Inr s" "getTag lg l addr = Inr tg"
    "unat s < length (sets l)" "unat s < length (fifo_queues l)"
    "sets l ! unat s = [x0, x1]" "fifo_queues l ! unat s = q" "access_counter l = c"
    and "valid x0" "tag x0 = tg"
  shows "\<exists>l'. CacheLevel_access lg l addr isWrite = Inr (True, l') \<and> same_shape l l' \<and>
      access_counter l' = c + 1 \<and>
      sets l' ! unat s = [x0\<lparr>last_access := c + 1, dirty := (isWrite \<or> dirty x0)\<rparr>, x1] \<and>
      fifo_queues l' ! unat s = q"
  using assms(9,10) two_way_access [OF assms(1-8), of isWrite]
  by (cases "policy l") (simp_all add: same_shape_def)

lemma two_way_evict_fifo:
  assumes "associativity l = 2" "getSetIndex lg l addr = Inr s" "getTag lg l addr = Inr tg"
    "unat s < length (sets l)" "unat s < length (fifo_queues l)"
    "sets l ! unat s = [x0, x1]" "fifo_queues l ! unat s = v # q" "access_counter l = c"
    and "valid x0" "tag x0 \<noteq> tg" "valid x1" "tag x1 \<noteq> tg" "policy l = FIFO"
  shows "\<exists>l'. CacheLevel_access lg l addr isWrite = Inr (False, l') \<and> same_shape l l' \<and>
      access_counter l' = c + 1 \<and>
      sets l' ! unat s =
        [x0, x1][v := \<lparr>valid = True, dirty = isWrite, tag = tg, last_access = c + 1\<rparr>] \<and>
      fifo_queues l' ! unat s = q @ [v]"
  using assms(9-13) two_way_access [OF assms(1-8), of isWrite]
  by (cases "policy l") (simp_all add: same_shape_def)

lemma two_way_evict_lru:
  assumes "associativity l = 2" "getSetIndex lg l addr = Inr s" "getTag lg l addr = Inr tg"
    "unat s < length (sets l)" "unat s < length (fifo_queues l)"
    "sets l ! unat s = [x0, x1]" "fifo_queues l ! unat s = q" "access_counter l = c"
    and "valid x0" "tag x0 \<noteq> tg" "valid x1" "tag x1 \<noteq> tg" "policy l = LRU"
  shows "\<exists>l'. CacheLevel_access lg l addr isWrite = Inr (False, l') \<and> same_shape l l' \<and>
      access_counter l' = c + 1 \<and>
      sets l' ! unat s =
        (if last_access x1 < last_access x0
         then [x0, \<lparr>valid = True, dirty = isWrite, tag = tg, last_access = c + 1\<rparr>]
         else [\<lparr>valid = True, dirty = isWrite, tag = tg, last_access = c + 1\<rparr>, x1]) \<and>
      fifo_queues l' ! unat s = q"
  using assms(9-13) two_way_access [OF assms(1-8), of isWrite]
  by (cases "policy l") (simp_all add: same_shape_def)

lemma getSetIndex_same_geometry:
  "block_size l' = block_size l \<Longrightarrow> num_sets l' = num_sets l \<Longrightarrow>
     getSetIndex lg l' addr = getSetIndex lg l addr"
  by (simp add: getSetIndex_def Let_def)

lemma getTag_same_geometry:
  "block_size l' = block_size l \<Longrightarrow> num_sets l' = num_sets l \<Longrightarrow> getTag lg l' addr = getTag lg l addr"
  by (simp add: getTag_def Let_def)

lemma CacheLevel_new_fields:
  assumes "CacheLevel_new room nm sz bs assoc pol lat = Inr l"
  shows "block_size l = bs" "associativity l = assoc" "num_sets l = sz div bs div assoc"
    "num_lines l = sz div bs" "policy l = pol" "access_counter l = 0" "access_latency l = lat"
    "sets l = replicate (unat (num_sets l)) (replicate (unat assoc) CacheLine_new)"
    "fifo_queues l = replicate (unat (num_sets l)) []" "level_stats l = CacheStats_new"
    "bs \<noteq> 0" "assoc \<noteq> 0"
  using assms by (auto simp: CacheLevel_new_def Let_def split: if_splits)

lemma same_shape_index:
  assumes "same_shape l l'"
  shows "getSetIndex lg l' addr = getSetIndex lg l addr" "getTag lg l' addr = getTag lg l addr"
    "associativity l' = associativity l" "policy l' = policy l"
    "unat s < length (sets l) \<Longrightarrow> unat s < length (sets l')"
    "unat s < length (fifo_queues l) \<Longrightarrow> unat s < length (fifo_queues l')"
proof -
  from assms have g: "block_size l' = block_size l" "num_sets l' = num_sets l"
    by (simp_all add: same_shape_def)
  show "getSetIndex lg l' addr = getSetIndex lg l addr" by (rule getSetIndex_same_geometry [OF g])
  show "getTag lg l' addr = getTag lg l addr" by (rule getTag_same_geometry [OF g])
qed (use assms in \<open>simp_all add: same_shape_def\<close>)

lemma abac_two_way:
  assumes new: "CacheLevel_new room nm sz bs 2 pol lat = Inr l0" and ns: "num_sets l0 \<noteq> 0"
    and sA: "getSetIndex lg l0 A = Inr s" and sB: "getSetIndex lg l0 B = Inr s"
    and sC: "getSetIndex lg l0 C = Inr s"
    and tA: "getTag lg l0 A = Inr ta" and tB: "getTag lg l0 B = Inr tb" and tC: "getTag lg l0 C = Inr tc"
    and ne: "ta \<noteq> tb" "ta \<noteq> tc" "tb \<noteq> tc"
  shows "\<exists>l4. access_all lg l0 [(A, w1), (B, w2), (A, w3), (C, w4)] =
        Inr ([False, False, True, False], l4) \<and>
      map (\<lambda>x. (valid x, tag x)) (sets l4 ! unat s) =
        (case pol of LRU \<Rightarrow> [(True, ta), (True, tc)] | FIFO \<Rightarrow> [(True, tc), (True, tb)])"
proof -
  note f = CacheLevel_new_fields [OF new]
  have wf: "wf_level lg l0"
    by (rule wf_CacheLevel_new [OF new ns getSetIndex_Inr(3) [OF sA] getTag_Inr [OF tA]])
  have sl: "unat s < unat (num_sets l0)" by (rule getSetIndex_less [OF sA])
  have len0: "unat s < length (sets l0)" "unat s < length (fifo_queues l0)"
    using sl by (simp_all add: f(8,9))
  have u2: "unat (2::size_t) = Suc (Suc 0)" by simp
  have "replicate (unat (2::size_t)) CacheLine_new = [CacheLine_new, CacheLine_new]"
    unfolding u2 by simp
  with sl have st0: "sets l0 ! unat s = [CacheLine_new, CacheLine_new]"
    by (simp add: f(8))
  have q0: "fifo_queues l0 ! unat s = []" using sl by (simp add: f(9))
  have nv: "\<not> valid CacheLine_new" by (simp add: CacheLine_new_def)
  define xA where "xA = \<lparr>valid = True, dirty = w1, tag = ta, last_access = 0 + 1\<rparr>"
  define xB where "xB = \<lparr>valid = True, dirty = w2, tag = tb, last_access = 0 + 1 + 1\<rparr>"
  define xA' where "xA' = xA\<lparr>last_access := 0 + 1 + 1 + 1, dirty := (w3 \<or> dirty xA)\<rparr>"
  define xC where "xC = \<lparr>valid = True, dirty = w4, tag = tc, last_access = 0 + 1 + 1 + 1 + 1\<rparr>"
  have v: "valid xA" "valid xB" "valid xA'" "tag xA = ta" "tag xB = tb" "tag xA' = ta"
    "last_access xB < last_access xA'"
    by (simp_all add: xA_def xB_def xA'_def)
  from two_way_fill_first [OF f(2) sA tA len0 st0 q0 f(6) nv nv, of w1]
  obtain l1 where a1: "CacheLevel_access lg l0 A w1 = Inr (False, l1)" and sh1: "same_shape l0 l1"
    and c1: "access_counter l1 = 0 + 1"
    and st1: "sets l1 ! unat s = [xA, CacheLine_new]"
    and q1: "fifo_queues l1 ! unat s = (if policy l0 = FIFO then [] @ [0] else [])"
    unfolding xA_def by blast
  note i1 = same_shape_index [OF sh1]
  from two_way_fill_second [OF i1(3) [unfolded f(2)] sB [folded i1(1)] tB [folded i1(2)]
      i1(5) [OF len0(1)] i1(6) [OF len0(2)] st1 q1 c1 v(1) _ nv, of w2]
  obtain l2 where a2: "CacheLevel_access lg l1 B w2 = Inr (False, l2)" and sh2: "same_shape l1 l2"
    and c2: "access_counter l2 = 0 + 1 + 1"
    and st2: "sets l2 ! unat s = [xA, xB]"
    and q2: "fifo_queues l2 ! unat s =
      (if policy l1 = FIFO then (if policy l0 = FIFO then [] @ [0] else []) @ [1]
       else (if policy l0 = FIFO then [] @ [0] else []))"
    unfolding xB_def using v(4) ne(1) by blast
  note i2 = same_shape_index [OF sh2]
  have g2: "associativity l2 = 2" "getSetIndex lg l2 A = Inr s" "getTag lg l2 A = Inr ta"
    "getSetIndex lg l2 C = Inr s" "getTag lg l2 C = Inr tc" "policy l2 = pol" "policy l1 = pol"
    "unat s < length (sets l2)" "unat s < length (fifo_queues l2)"
    using i1(1-4) i2(1-4) f(2,5) sA tA sC tC i2(5) [OF i1(5) [OF len0(1)]]
      i2(6) [OF i1(6) [OF len0(2)]]
    by simp_all
  from two_way_hit_first [OF g2(1,2,3,8,9) st2 q2 c2 v(1,4), of w3]
  obtain l3 where a3: "CacheLevel_access lg l2 A w3 = Inr (True, l3)" and sh3: "same_shape l2 l3"
    and c3: "access_counter l3 = 0 + 1 + 1 + 1"
    and st3: "sets l3 ! unat s = [xA', xB]"
    and q3: "fifo_queues l3 ! unat s =
      (if policy l1 = FIFO then (if policy l0 = FIFO then [] @ [0] else []) @ [1]
       else (if policy l0 = FIFO then [] @ [0] else []))"
    unfolding xA'_def by blast
  note i3 = same_shape_index [OF sh3]
  have g3: "associativity l3 = 2" "getSetIndex lg l3 C = Inr s" "getTag lg l3 C = Inr tc"
    "policy l3 = pol" "unat s < length (sets l3)" "unat s < length (fifo_queues l3)"
    using i3(1-4) g2 i3(5) [OF g2(8)] i3(6) [OF g2(9)] by simp_all
  have t3: "tag xA' \<noteq> tc" "tag xB \<noteq> tc" using v ne by simp_all
  have "\<exists>l4. CacheLevel_access lg l3 C w4 = Inr (False, l4) \<and>
      sets l4 ! unat s = (case pol of LRU \<Rightarrow> [xA', xC] | FIFO \<Rightarrow> [xC, xB])"
  proof (cases pol)
    case FIFO
    with q3 g2(7) f(5) have q3': "fifo_queues l3 ! unat s = 0 # [1]" by simp
    from two_way_evict_fifo [OF g3(1,2,3,5,6) st3 q3' c3 v(3) t3(1) v(2) t3(2), of w4] FIFO g3(4)
    show ?thesis by (auto simp: xC_def)
  next
    case LRU
    from two_way_evict_lru [OF g3(1,2,3,5,6) st3 q3 c3 v(3) t3(1) v(2) t3(2), of w4] LRU g3(4) v(7)
    show ?thesis by (auto simp: xC_def)
  qed
  then obtain l4 where a4: "CacheLevel_access lg l3 C w4 = Inr (False, l4)"
    and st4: "sets l4 ! unat s = (case pol of LRU \<Rightarrow> [xA', xC] | FIFO \<Rightarrow> [xC, xB])"
    by blast
  have "access_all lg l0 [(A, w1), (B, w2), (A, w3), (C, w4)] = Inr ([False, False, True, False], l4)"
    by (simp add: a1 a2 a3 a4)
  moreover have "map (\<lambda>x. (valid x, tag x)) (sets l4 ! unat s) =
        (case pol of LRU \<Rightarrow> [(True, ta), (True, tc)] | FIFO \<Rightarrow> [(True, tc), (True, tb)])"
    unfolding st4 by (cases pol) (simp_all add: xA'_def xA_def xB_def xC_def)
  ultimately show ?thesis by blast
qed

lemma resident_tags_pairs:
  "map (\<lambda>x. (valid x, tag x)) st = [(True, a), (True, b)] \<Longrightarrow>
     set (map tag (filter valid st)) = {a, b}"
  by (auto simp: map_eq_Cons_conv)

text \<open>
  Claim C5. Two freshly constructed two-way levels of the same geometry, one LRU and
  one FIFO, are given the accesses A, B, A, C, where the three addresses map to the same
  set and have three different tags, with the set and the tags that the code computes
  from the logarithm \<open>lg\<close> of the target, whatever it is. In both the accesses miss, miss, hit and miss, in
  this order. Afterwards the set of the LRU level holds the tags of A and C (B's line
  was replaced), the set of the FIFO level holds the tags of B and C (A's line was
  replaced), and the two sets of resident tags differ.
\<close>

theorem lru_fifo_divergence:
  assumes lru: "CacheLevel_new room nm sz bs 2 LRU lat = Inr lru0"
    and fifo: "CacheLevel_new room nm sz bs 2 FIFO lat = Inr fifo0"
    and ns: "num_sets lru0 \<noteq> 0"
    and sa: "getSetIndex lg lru0 A = Inr s" and sb: "getSetIndex lg lru0 B = Inr s"
    and sc: "getSetIndex lg lru0 C = Inr s"
    and ta: "getTag lg lru0 A = Inr ta" and tb: "getTag lg lru0 B = Inr tb"
    and tc: "getTag lg lru0 C = Inr tc"
    and ne: "ta \<noteq> tb" "ta \<noteq> tc" "tb \<noteq> tc"
  shows "\<exists>lru4 fifo4.
     access_all lg lru0 [(A, w1), (B, w2), (A, w3), (C, w4)] = Inr ([False, False, True, False], lru4) \<and>
     access_all lg fifo0 [(A, w1), (B, w2), (A, w3), (C, w4)] = Inr ([False, False, True, False], fifo4) \<and>
     map (\<lambda>x. (valid x, tag x)) (sets lru4 ! unat s) = [(True, ta), (True, tc)] \<and>
     map (\<lambda>x. (valid x, tag x)) (sets fifo4 ! unat s) = [(True, tc), (True, tb)] \<and>
     resident_tags lru4 (unat s) = {ta, tc} \<and>
     resident_tags fifo4 (unat s) = {tb, tc} \<and>
     resident_tags lru4 (unat s) \<noteq> resident_tags fifo4 (unat s)"
proof -
  note fl = CacheLevel_new_fields [OF lru] and ff = CacheLevel_new_fields [OF fifo]
  have g: "block_size fifo0 = block_size lru0" "num_sets fifo0 = num_sets lru0"
    by (simp_all add: fl ff)
  have ns': "num_sets fifo0 \<noteq> 0" using ns g by simp
  note si = getSetIndex_same_geometry [OF g] and ti = getTag_same_geometry [OF g]
  from abac_two_way [OF lru ns sa sb sc ta tb tc ne, of w1 w2 w3 w4]
  obtain lru4 where
    l1: "access_all lg lru0 [(A, w1), (B, w2), (A, w3), (C, w4)] = Inr ([False, False, True, False], lru4)"
    and l2: "map (\<lambda>x. (valid x, tag x)) (sets lru4 ! unat s) = [(True, ta), (True, tc)]"
    by auto
  from abac_two_way [OF fifo ns' sa [folded si] sb [folded si] sc [folded si]
      ta [folded ti] tb [folded ti] tc [folded ti] ne, of w1 w2 w3 w4]
  obtain fifo4 where
    f1: "access_all lg fifo0 [(A, w1), (B, w2), (A, w3), (C, w4)] = Inr ([False, False, True, False], fifo4)"
    and f2: "map (\<lambda>x. (valid x, tag x)) (sets fifo4 ! unat s) = [(True, tc), (True, tb)]"
    by auto
  have rl: "resident_tags lru4 (unat s) = {ta, tc}"
    unfolding resident_tags_def by (rule resident_tags_pairs [OF l2])
  have rf: "resident_tags fifo4 (unat s) = {tb, tc}"
    unfolding resident_tags_def using resident_tags_pairs [OF f2] by auto
  have "{ta, tc} \<noteq> {tb, tc}" using ne by auto
  with l1 l2 f1 f2 rl rf show ?thesis by auto
qed

theorem lru_fifo_divergence_witness:
  "\<exists>lru4 fifo4.
     access_all exact_log2 (projr (CacheLevel_new small_host ''L1'' 64 16 2 LRU 1))
       [(0, False), (32, True), (0, False), (64, False)] = Inr ([False, False, True, False], lru4) \<and>
     access_all exact_log2 (projr (CacheLevel_new small_host ''L1'' 64 16 2 FIFO 1))
       [(0, False), (32, True), (0, False), (64, False)] = Inr ([False, False, True, False], fifo4) \<and>
     resident_tags lru4 0 = {0, 2} \<and> resident_tags fifo4 0 = {1, 2}"
proof -
  let ?lru = "projr (CacheLevel_new small_host ''L1'' 64 16 2 LRU 1)"
  let ?fifo = "projr (CacheLevel_new small_host ''L1'' 64 16 2 FIFO 1)"
  have new: "CacheLevel_new small_host ''L1'' 64 16 2 LRU 1 = Inr ?lru"
    "CacheLevel_new small_host ''L1'' 64 16 2 FIFO 1 = Inr ?fifo"
    by (simp_all add: CacheLevel_new_def small_host_def Let_def)
  have ns: "num_sets ?lru \<noteq> 0" by code_simp
  have s: "getSetIndex exact_log2 ?lru 0 = Inr 0" "getSetIndex exact_log2 ?lru 32 = Inr 0" "getSetIndex exact_log2 ?lru 64 = Inr 0"
    by code_simp+
  have t: "getTag exact_log2 ?lru 0 = Inr 0" "getTag exact_log2 ?lru 32 = Inr 1" "getTag exact_log2 ?lru 64 = Inr 2"
    by code_simp+
  have ne: "(0::size_t) \<noteq> 1" "(0::size_t) \<noteq> 2" "(1::size_t) \<noteq> 2" by simp_all
  from lru_fifo_divergence [OF new ns s t ne, of False True False False] show ?thesis
    by auto
qed

end
